theory Spec2Isabelle
  imports Complex_Main "HOL-Library.Word" "HOL-Library.Multiset"
begin

section \<open>Strings of the source language\<close>

text \<open>
  A string of the source is a sequence of 16-bit code units. The pattern
  \<^verbatim>\<open>/\[.*?\]|\(.*?\)/g\<close> has no \<^verbatim>\<open>u\<close> or \<^verbatim>\<open>s\<close> flag: it works on code units,
  and its dot matches every code unit but the four line terminators.
  \<^verbatim>\<open>trim()\<close> removes white space and line terminators from both ends.
\<close>

type_synonym jschar = "16 word"
type_synonym jsstring = "jschar list"

definition js :: "string \<Rightarrow> jsstring" where
  "js s = map (\<lambda>c. of_nat (of_char c)) s"

definition isLineTerminator :: "jschar \<Rightarrow> bool" where
  "isLineTerminator c \<longleftrightarrow> c = 0x0A \<or> c = 0x0D \<or> c = 0x2028 \<or> c = 0x2029"

definition isWhiteSpace :: "jschar \<Rightarrow> bool" where
  "isWhiteSpace c \<longleftrightarrow>
     c = 0x09 \<or> c = 0x0A \<or> c = 0x0B \<or> c = 0x0C \<or> c = 0x0D \<or> c = 0x20 \<or>
     c = 0xA0 \<or> c = 0x1680 \<or> (0x2000 \<le> c \<and> c \<le> 0x200A) \<or>
     c = 0x2028 \<or> c = 0x2029 \<or> c = 0x202F \<or> c = 0x205F \<or> c = 0x3000 \<or>
     c = 0xFEFF"

definition trim :: "jsstring \<Rightarrow> jsstring" where
  "trim s = rev (dropWhile isWhiteSpace (rev (dropWhile isWhiteSpace s)))"

definition LBRACKET :: jschar where "LBRACKET = 0x5B"
definition RBRACKET :: jschar where "RBRACKET = 0x5D"
definition LPAREN :: jschar where "LPAREN = 0x28"
definition RPAREN :: jschar where "RPAREN = 0x29"

text \<open>
  \<open>lazyUntil close s\<close> is the lazy \<^verbatim>\<open>.*?\<close> followed by the closing
  character, run on the text after an opening character: it succeeds at the
  first closing character if no line terminator comes before it, and returns
  the text after the match.
\<close>

fun lazyUntil :: "jschar \<Rightarrow> jsstring \<Rightarrow> jsstring option" where
  "lazyUntil close [] = None"
| "lazyUntil close (x # xs) =
     (if x = close then Some xs
      else if isLineTerminator x then None
      else lazyUntil close xs)"

lemma lazyUntil_length: "lazyUntil close xs = Some r \<Longrightarrow> length r < length xs"
  by (induction xs) (auto split: if_splits)

text \<open>
  \<open>replaceSDH\<close> is \<^verbatim>\<open>text.replace(/\[.*?\]|\(.*?\)/g, '')\<close>: at each position
  the first alternative is tried, then the second; a match is deleted and the
  scan goes on after it; where neither matches, the character is kept.
\<close>

function replaceSDH :: "jsstring \<Rightarrow> jsstring" where
  "replaceSDH [] = []"
| "replaceSDH (x # xs) =
     (if x = LBRACKET then
        (case lazyUntil RBRACKET xs of
           Some r \<Rightarrow> replaceSDH r
         | None \<Rightarrow> x # replaceSDH xs)
      else if x = LPAREN then
        (case lazyUntil RPAREN xs of
           Some r \<Rightarrow> replaceSDH r
         | None \<Rightarrow> x # replaceSDH xs)
      else x # replaceSDH xs)"
  by pat_completeness auto
termination
  by (relation "measure length") (auto dest: lazyUntil_length)

section \<open>Data model (types.ts)\<close>

text \<open>
  An optional field is an \<open>option\<close>; \<^verbatim>\<open>null\<close> is \<open>None\<close>. Field names that
  several interfaces share, or that are keywords here, carry a suffix.
\<close>

text \<open>
  What reading the property \<^verbatim>\<open>message\<close> of a caught value can give, and so
  what the field \<^verbatim>\<open>error\<close> can come to hold although it is declared
  \<^verbatim>\<open>string | null\<close>: the catch clause is typed \<^verbatim>\<open>e: any\<close>. \<open>Other\<close> is any value
  that is none of the first three.
\<close>

datatype jsvalue = Undefined | Null | Str jsstring | Other

record ParsedSubtitle =
  id_sub :: "jsstring option"
  timestamp :: "jsstring option"
  text_sub :: jsstring
  isHeader :: "bool option"
  isMalformed :: "bool option"

datatype ProcessingStatus = Pending | Processing | Done | Error

record File =
  name :: jsstring
  bytes :: "8 word list"

record FileItem =
  id_file :: jsstring
  file_obj :: File
  status :: ProcessingStatus
  originalText :: jsstring
  translatedText :: "jsstring option"
  error :: jsvalue
  wordCount :: nat

record TranslationHistoryItem =
  id_hist :: jsstring
  filename :: jsstring
  from_lang :: jsstring
  to_lang :: jsstring
  date :: jsstring

datatype AppStep = UPLOAD | SETTINGS | RESULTS

text \<open>
  A thrown value, of which the code only reads \<^verbatim>\<open>message\<close>. \<open>Thrown v\<close> is a
  value other than \<^verbatim>\<open>null\<close> and \<^verbatim>\<open>undefined\<close> whose property \<^verbatim>\<open>message\<close> reads as
  \<open>v\<close>: an \<^verbatim>\<open>Error\<close> object has a string there, a thrown string, number or event
  has \<open>Undefined\<close>. \<open>Nullish\<close> is a thrown \<^verbatim>\<open>null\<close> or \<^verbatim>\<open>undefined\<close>: reading
  \<^verbatim>\<open>message\<close> of it raises a \<^verbatim>\<open>TypeError\<close>.
\<close>

datatype exn = Nullish | Thrown jsvalue

text \<open>An \<^verbatim>\<open>Error\<close> object with the message \<open>m\<close>.\<close>

definition Exn :: "jsstring \<Rightarrow> exn" where
  "Exn m = Thrown (Str m)"

section \<open>What a run can be observed to do\<close>

text \<open>
  The calls a run makes to the outside, in the order it makes them.
  \<open>TranslateBatch i b batch texts src tgt prompt\<close> is the call
  \<^verbatim>\<open>translateBatch(batchTexts, sourceLang, targetLang, prompt)\<close> for batch \<open>b\<close> of
  file \<open>i\<close>; \<open>batch\<close> lists the positions in \<^verbatim>\<open>parsed\<close> of the entries of the
  batch. \<open>Settled i b\<close> is the moment the promise of that call resolves or
  rejects and the rest of \<^verbatim>\<open>processBatch\<close> runs.
\<close>

datatype event =
    Alert
  | SetProgress rat
  | TranslateBatch nat nat "nat list" "jsstring list" jsstring jsstring jsstring
  | Settled nat nat
  | ReconstructSubtitles "ParsedSubtitle list" jsstring
  | UncaughtTypeError

section \<open>Application state (App.tsx, lines 14--32)\<close>

text \<open>
  The React state the handler reads or writes, and \<open>trace\<close>, the observable
  calls made so far. A value of this type is also what the closure of
  \<^verbatim>\<open>handleStartProcessing\<close> sees: the state at the render that created it.
\<close>

record AppState =
  step :: AppStep
  files :: "FileItem list"
  sourceLang :: jsstring
  targetLang :: jsstring
  prompt :: jsstring
  removeSDH :: bool
  isProcessing :: bool
  progress :: rat
  currentProcessingFile :: jsstring
  history :: "TranslationHistoryItem list"
  trace :: "event list"

section \<open>The collaborators outside App.tsx\<close>

text \<open>
  \<^verbatim>\<open>readFileAsText\<close>, \<^verbatim>\<open>parseSubtitles\<close>, \<^verbatim>\<open>reconstructSubtitles\<close> and
  \<^verbatim>\<open>translateBatch\<close> are imported from other modules; the clock and the
  browser's storage are the platform's. All are parameters: any behaviour is
  allowed, and each may throw (\<open>Inl\<close>). A promise is taken to settle.
  \<open>translateBatch E i b\<close> is the answer to the call for batch \<open>b\<close> of file \<open>i\<close>,
  so two calls with equal arguments may differ. \<open>settleOrder E i k\<close> decides
  in which order the calls of the window starting at batch \<open>k\<close> of file \<open>i\<close>
  settle (see \<open>pickOrder\<close>).
\<close>

record env =
  readFileAsText :: "File \<Rightarrow> exn + jsstring"
  parseSubtitles :: "jsstring \<Rightarrow> exn + ParsedSubtitle list"
  reconstructSubtitles :: "ParsedSubtitle list \<Rightarrow> jsstring \<Rightarrow> exn + jsstring"
  translateBatch ::
    "nat \<Rightarrow> nat \<Rightarrow> jsstring list \<Rightarrow> jsstring \<Rightarrow> jsstring \<Rightarrow> jsstring \<Rightarrow> exn + jsstring list"
  settleOrder :: "nat \<Rightarrow> nat \<Rightarrow> nat list"
  dateNow :: "nat \<Rightarrow> jsstring"
  toLocaleString :: "nat \<Rightarrow> jsstring"
  localStorage_setItem :: "TranslationHistoryItem list \<Rightarrow> exn option"

section \<open>Step 3: removing SDH annotations (lines 109--115)\<close>

text \<open>The body of \<^verbatim>\<open>parsed.forEach(p => { if (p.text) { ... } })\<close>.\<close>

definition removeSDH_entry :: "ParsedSubtitle \<Rightarrow> ParsedSubtitle" where
  "removeSDH_entry p =
     (if text_sub p \<noteq> [] then p\<lparr>text_sub := trim (replaceSDH (text_sub p))\<rparr> else p)"

text \<open>\<^verbatim>\<open>if (removeSDH) { parsed.forEach(...) }\<close>, with the setting read from the closure.\<close>

definition removeSDH_step :: "AppState \<Rightarrow> ParsedSubtitle list \<Rightarrow> ParsedSubtitle list" where
  "removeSDH_step c parsed = (if removeSDH c then map removeSDH_entry parsed else parsed)"

section \<open>Step 4: batches (lines 120--129)\<close>

definition BATCH_SIZE :: nat where "BATCH_SIZE = 100"
definition CONCURRENT_LIMIT :: nat where "CONCURRENT_LIMIT = 5"

definition truthy :: "bool option \<Rightarrow> bool" where
  "truthy b \<longleftrightarrow> b = Some True"

definition isValid :: "ParsedSubtitle \<Rightarrow> bool" where
  "isValid p \<longleftrightarrow>
     \<not> truthy (isHeader p) \<and> \<not> truthy (isMalformed p) \<and> length (trim (text_sub p)) > 0"

text \<open>
  The entries of \<^verbatim>\<open>parsed\<close> are objects that \<^verbatim>\<open>validSubtitles\<close> and the batches
  share with it. The model keeps \<^verbatim>\<open>parsed\<close> as the store and refers to an entry
  by its position there, the parser being taken to return distinct objects.
\<close>

definition validSubtitles :: "ParsedSubtitle list \<Rightarrow> nat list" where
  "validSubtitles parsed = filter (\<lambda>r. isValid (parsed ! r)) [0..<length parsed]"

definition slice :: "'a list \<Rightarrow> nat \<Rightarrow> nat \<Rightarrow> 'a list" where
  "slice xs a b = take (b - a) (drop a xs)"

function batchLoop :: "nat list \<Rightarrow> nat \<Rightarrow> nat list list" where
  "batchLoop valid j =
     (if j < length valid
      then slice valid j (j + BATCH_SIZE) # batchLoop valid (j + BATCH_SIZE)
      else [])"
  by pat_completeness auto
termination
  by (relation "measure (\<lambda>(valid, j). length valid - j)") (auto simp: BATCH_SIZE_def)

declare batchLoop.simps [simp del]

section \<open>Step 4: translating one batch (lines 131--151)\<close>

text \<open>
  The variables \<^verbatim>\<open>processBatch\<close> writes: the entries of \<^verbatim>\<open>parsed\<close>,
  \<^verbatim>\<open>completedSubtitlesCount\<close>, and the calls made so far for this file.
\<close>

record pstate =
  entries :: "ParsedSubtitle list"
  completedSubtitlesCount :: nat
  emitted :: "event list"

text \<open>A call of \<^verbatim>\<open>translateBatch\<close> in flight: its batch and the answer it will settle with.\<close>

record call =
  call_index :: nat
  call_batch :: "nat list"
  call_answer :: "exn + jsstring list"

text \<open>\<^verbatim>\<open>translatedBatch[idx] || sub.text\<close>: an absent or empty string is falsy.\<close>

definition orText :: "jsstring list \<Rightarrow> nat \<Rightarrow> jsstring \<Rightarrow> jsstring" where
  "orText translatedBatch idx t =
     (if idx < length translatedBatch \<and> translatedBatch ! idx \<noteq> [] then translatedBatch ! idx else t)"

text \<open>\<^verbatim>\<open>batch.forEach((sub, idx) => { sub.text = translatedBatch[idx] || sub.text })\<close>\<close>

fun forEach_assign ::
  "nat list \<Rightarrow> nat \<Rightarrow> jsstring list \<Rightarrow> ParsedSubtitle list \<Rightarrow> ParsedSubtitle list" where
  "forEach_assign [] idx translatedBatch ps = ps"
| "forEach_assign (sub # rest) idx translatedBatch ps =
     forEach_assign rest (Suc idx) translatedBatch
       (ps[sub := (ps ! sub)\<lparr>text_sub := orText translatedBatch idx (text_sub (ps ! sub))\<rparr>])"

text \<open>
  \<^verbatim>\<open>processBatch\<close> up to its \<^verbatim>\<open>await\<close>: the texts are read and the call is made.
\<close>

definition processBatch_call ::
  "env \<Rightarrow> AppState \<Rightarrow> nat \<Rightarrow> nat \<Rightarrow> nat list \<Rightarrow> pstate \<Rightarrow> call \<times> pstate" where
  "processBatch_call E c i b bt st =
     (let batchTexts = map (\<lambda>s. text_sub (entries st ! s)) bt
      in (\<lparr>call_index = b, call_batch = bt,
           call_answer = translateBatch E i b batchTexts (sourceLang c) (targetLang c) (prompt c)\<rparr>,
          st\<lparr>emitted := emitted st @
            [TranslateBatch i b bt batchTexts (sourceLang c) (targetLang c) (prompt c)]\<rparr>))"

text \<open>
  \<^verbatim>\<open>processBatch\<close> after its \<^verbatim>\<open>await\<close>: the \<^verbatim>\<open>try\<close> branch assigns the
  translations, the \<^verbatim>\<open>catch\<close> branch only logs, and \<^verbatim>\<open>finally\<close> counts the batch
  and reports progress. \<open>nValid\<close> is \<^verbatim>\<open>validSubtitles.length\<close>, \<open>i\<close> the index of
  the file, \<open>length (files c)\<close> is \<^verbatim>\<open>totalFiles\<close>. Numbers are exact rationals
  here, doubles in the source.
\<close>

definition processBatch_settle :: "AppState \<Rightarrow> nat \<Rightarrow> nat \<Rightarrow> call \<Rightarrow> pstate \<Rightarrow> pstate" where
  "processBatch_settle c i nValid cl st =
     (let st1 = (case call_answer cl of
                   Inr translatedBatch \<Rightarrow>
                     st\<lparr>entries := forEach_assign (call_batch cl) 0 translatedBatch (entries st)\<rparr>
                 | Inl e \<Rightarrow> st);
          completed = completedSubtitlesCount st1 + length (call_batch cl);
          fileProgress = of_nat completed / of_nat nValid;
          globalProgress = ((of_nat i + fileProgress) / of_nat (length (files c))) * 100
      in st1\<lparr>completedSubtitlesCount := completed,
             emitted := emitted st1 @
               [Settled i (call_index cl), SetProgress (min globalProgress 99)]\<rparr>)"

section \<open>Step 4: windows of concurrent calls (lines 153--158)\<close>

text \<open>
  \<^verbatim>\<open>chunk.map(batch => processBatch(batch))\<close> runs every \<^verbatim>\<open>processBatch\<close> of the
  window up to its \<^verbatim>\<open>await\<close>, in order; \<open>b\<close> is the index of the batch.
\<close>

fun dispatchAll ::
  "env \<Rightarrow> AppState \<Rightarrow> nat \<Rightarrow> nat \<Rightarrow> nat list list \<Rightarrow> pstate \<Rightarrow> call list \<times> pstate" where
  "dispatchAll E c i b [] st = ([], st)"
| "dispatchAll E c i b (bt # rest) st =
     (let (cl, st1) = processBatch_call E c i b bt st;
          (cls, st2) = dispatchAll E c i (Suc b) rest st1
      in (cl # cls, st2))"

text \<open>
  The calls of a window settle in any order. \<open>pickOrder choices xs\<close> takes the
  next call to settle out of those still in flight, as the choices say; every
  order is the result of some choices, and when they run out the rest settle in
  the order of dispatch.
\<close>

fun pickOrder :: "nat list \<Rightarrow> 'a list \<Rightarrow> 'a list" where
  "pickOrder [] xs = xs"
| "pickOrder (n # ns) xs =
     (if xs = [] then []
      else (let j = n mod length xs
            in xs ! j # pickOrder ns (take j xs @ drop (Suc j) xs)))"

text \<open>\<^verbatim>\<open>await Promise.all(chunk.map(batch => processBatch(batch)))\<close>\<close>

definition runWindow ::
  "env \<Rightarrow> AppState \<Rightarrow> nat \<Rightarrow> nat \<Rightarrow> nat \<Rightarrow> nat list list \<Rightarrow> pstate \<Rightarrow> pstate" where
  "runWindow E c i nValid k chunk st =
     (let (calls, st1) = dispatchAll E c i k chunk st
      in fold (processBatch_settle c i nValid) (pickOrder (settleOrder E i k) calls) st1)"

function windowLoop ::
  "env \<Rightarrow> AppState \<Rightarrow> nat \<Rightarrow> nat \<Rightarrow> nat list list \<Rightarrow> nat \<Rightarrow> pstate \<Rightarrow> pstate" where
  "windowLoop E c i nValid batches k st =
     (if k < length batches
      then windowLoop E c i nValid batches (k + CONCURRENT_LIMIT)
             (runWindow E c i nValid k (slice batches k (k + CONCURRENT_LIMIT)) st)
      else st)"
  by pat_completeness auto
termination
  by (relation "measure (\<lambda>(E, c, i, nValid, batches, k, st). length batches - k)")
     (auto simp: CONCURRENT_LIMIT_def)

declare windowLoop.simps [simp del]

text \<open>Steps 3 and 4 together (lines 108--158), on the array the parser returned.\<close>

definition translateChunks :: "env \<Rightarrow> AppState \<Rightarrow> nat \<Rightarrow> ParsedSubtitle list \<Rightarrow> pstate" where
  "translateChunks E c i parsed0 =
     (let parsed = removeSDH_step c parsed0;
          valid = validSubtitles parsed;
          batches = batchLoop valid 0
      in windowLoop E c i (length valid) batches 0
           \<lparr>entries = parsed, completedSubtitlesCount = 0, emitted = []\<rparr>)"

section \<open>One file (lines 95--178)\<close>

text \<open>\<^verbatim>\<open>finalText.split(/\s+/).length\<close>: one more than the number of runs of white space.\<close>

fun wsRuns :: "bool \<Rightarrow> jsstring \<Rightarrow> nat" where
  "wsRuns inRun [] = 0"
| "wsRuns inRun (x # xs) =
     (if isWhiteSpace x then (if inRun then 0 else 1) + wsRuns True xs else wsRuns False xs)"

definition splitCount :: "jsstring \<Rightarrow> nat" where
  "splitCount s = Suc (wsRuns False s)"

text \<open>
  Steps 1 to 5 (lines 103--161): read, parse, translate, reconstruct. The
  result is the exception thrown, or the text read and the text reconstructed;
  with it come the calls made on the way.
\<close>

definition translateFile ::
  "env \<Rightarrow> AppState \<Rightarrow> nat \<Rightarrow> FileItem \<Rightarrow> (exn + jsstring \<times> jsstring) \<times> event list" where
  "translateFile E c i fileItem =
     (case readFileAsText E (file_obj fileItem) of
        Inl e \<Rightarrow> (Inl e, [])
      | Inr text \<Rightarrow>
          (case parseSubtitles E text of
             Inl e \<Rightarrow> (Inl e, [])
           | Inr parsed \<Rightarrow>
               (let st = translateChunks E c i parsed;
                    evs = emitted st @
                      [ReconstructSubtitles (entries st) (name (file_obj fileItem))]
                in case reconstructSubtitles E (entries st) (name (file_obj fileItem)) of
                     Inl e \<Rightarrow> (Inl e, evs)
                   | Inr finalText \<Rightarrow> (Inr (text, finalText), evs))))"

text \<open>\<^verbatim>\<open>setFiles(prev => prev.map(g))\<close>\<close>

definition setFiles :: "(FileItem \<Rightarrow> FileItem) \<Rightarrow> AppState \<Rightarrow> AppState" where
  "setFiles g s = s\<lparr>files := map g (files s)\<rparr>"

text \<open>The value \<^verbatim>\<open>progress\<close> holds after the calls of \<^verbatim>\<open>setProgress\<close> among the events.\<close>

fun lastProgress :: "event list \<Rightarrow> rat \<Rightarrow> rat" where
  "lastProgress [] p = p"
| "lastProgress (SetProgress v # evs) p = lastProgress evs v"
| "lastProgress (ev # evs) p = lastProgress evs p"

text \<open>
  How a piece of the handler ends: normally, or with a \<^verbatim>\<open>TypeError\<close> that
  nothing in the handler catches; either way with the state reached.
\<close>

datatype flow = Normal AppState | Raised AppState

fun stateOf :: "flow \<Rightarrow> AppState" where
  "stateOf (Normal s) = s"
| "stateOf (Raised s) = s"

text \<open>
  The \<^verbatim>\<open>catch\<close> branch (lines 175--178). The function passed to \<^verbatim>\<open>setFiles\<close>
  reads \<^verbatim>\<open>e.message\<close> for each element that has the id of the file. When \<open>e\<close> is
  \<^verbatim>\<open>null\<close> or \<^verbatim>\<open>undefined\<close> that read raises a \<^verbatim>\<open>TypeError\<close> and no element is
  changed. Setters are taken to apply their function at the call, here as
  everywhere in the model, so the \<^verbatim>\<open>TypeError\<close> leaves the \<^verbatim>\<open>catch\<close> branch, the
  loop and the handler; the model follows the run no further. Were the
  function applied later, when the component renders, the \<^verbatim>\<open>TypeError\<close> would be
  raised there, and the element would not be changed either.
\<close>

definition catchError :: "FileItem \<Rightarrow> exn \<Rightarrow> AppState \<Rightarrow> flow" where
  "catchError fileItem e s =
     (case e of
        Thrown v \<Rightarrow>
          Normal (setFiles (\<lambda>f. if id_file f = id_file fileItem
                                  then f\<lparr>status := Error, error := v\<rparr> else f) s)
      | Nullish \<Rightarrow>
          if list_ex (\<lambda>f. id_file f = id_file fileItem) (files s) then Raised s
          else Normal s)"

text \<open>
  \<^verbatim>\<open>addToHistory\<close> (lines 66--77), called for file \<open>i\<close>. It reads
  \<^verbatim>\<open>sourceLang\<close>, \<^verbatim>\<open>targetLang\<close> and \<^verbatim>\<open>history\<close> from the closure \<open>c\<close>, sets the
  new history, and then writes it to \<^verbatim>\<open>localStorage\<close>, which may throw.
\<close>

definition newHistory :: "env \<Rightarrow> AppState \<Rightarrow> nat \<Rightarrow> FileItem \<Rightarrow> TranslationHistoryItem list" where
  "newHistory E c i fileItem =
     (let newItem = \<lparr>id_hist = dateNow E i, filename = name (file_obj fileItem),
            from_lang = sourceLang c, to_lang = targetLang c, date = toLocaleString E i\<rparr>
      in take 20 (newItem # history c))"

definition addToHistory ::
  "env \<Rightarrow> AppState \<Rightarrow> nat \<Rightarrow> FileItem \<Rightarrow> AppState \<Rightarrow> exn option \<times> AppState" where
  "addToHistory E c i fileItem s =
     (localStorage_setItem E (newHistory E c i fileItem),
      s\<lparr>history := newHistory E c i fileItem\<rparr>)"

text \<open>
  The body of the loop over the files. \<open>c\<close> is the state the closure sees:
  \<^verbatim>\<open>files\<close>, the settings and \<^verbatim>\<open>history\<close> are read from it. \<open>s\<close> is the state
  the setters update. The call of \<^verbatim>\<open>addToHistory\<close> is inside the \<^verbatim>\<open>try\<close>.
\<close>

definition processFile :: "env \<Rightarrow> AppState \<Rightarrow> nat \<Rightarrow> FileItem \<Rightarrow> AppState \<Rightarrow> flow" where
  "processFile E c i fileItem s =
     (let s1 = setFiles (\<lambda>f. if id_file f = id_file fileItem
                              then f\<lparr>status := Processing\<rparr> else f)
                 (s\<lparr>currentProcessingFile := name (file_obj fileItem)\<rparr>);
          (r, evs) = translateFile E c i fileItem;
          s2 = s1\<lparr>progress := lastProgress evs (progress s1), trace := trace s1 @ evs\<rparr>
      in case r of
           Inl e \<Rightarrow> catchError fileItem e s2
         | Inr (text, finalText) \<Rightarrow>
             (let updatedItem = fileItem\<lparr>status := Done, originalText := text,
                    translatedText := Some finalText, wordCount := splitCount finalText\<rparr>;
                  s3 = setFiles (\<lambda>f. if id_file f = id_file fileItem then updatedItem else f) s2
              in case addToHistory E c i updatedItem s3 of
                   (None, s4) \<Rightarrow> Normal s4
                 | (Some e, s4) \<Rightarrow> catchError fileItem e s4))"

section \<open>The handler (lines 80--183)\<close>

function fileLoop :: "env \<Rightarrow> AppState \<Rightarrow> nat \<Rightarrow> AppState \<Rightarrow> flow" where
  "fileLoop E c i s =
     (if i < length (files c)
      then (case processFile E c i (files c ! i) s of
              Normal s1 \<Rightarrow> fileLoop E c (Suc i) s1
            | Raised s1 \<Rightarrow> Raised s1)
      else Normal s)"
  by pat_completeness auto
termination
  by (relation "measure (\<lambda>(E, c, i, s). length (files c) - i)") auto

declare fileLoop.simps [simp del]

text \<open>
  \<open>s\<close> is the state at the click, which is also the state the closure sees.
  States changed by the user while the run is suspended are not modelled. When
  a \<^verbatim>\<open>TypeError\<close> leaves the loop the promise of the handler is rejected, which
  the trace records, and lines 181--182 are not reached.
\<close>

definition handleStartProcessing :: "env \<Rightarrow> AppState \<Rightarrow> AppState" where
  "handleStartProcessing E s =
     (if length (files s) = 0 then s
      else if sourceLang s = targetLang s then s\<lparr>trace := trace s @ [Alert]\<rparr>
      else
        (let s1 = s\<lparr>step := RESULTS, isProcessing := True, progress := 0,
                    trace := trace s @ [SetProgress 0]\<rparr>
         in case fileLoop E s 0 s1 of
              Normal s2 \<Rightarrow> s2\<lparr>isProcessing := False, progress := 100,
                                trace := trace s2 @ [SetProgress 100]\<rparr>
            | Raised s2 \<Rightarrow> s2\<lparr>trace := trace s2 @ [UncaughtTypeError]\<rparr>))"

section \<open>A sample run\<close>

text \<open>
  Three uploads: the first is translated, the second cannot be read, every
  translation call of the third is rejected. The parser returns two cues, a
  header, a cue that is only annotations, a malformed block and a blank cue.
\<close>

definition cueOf :: "string \<Rightarrow> ParsedSubtitle" where
  "cueOf t = \<lparr>id_sub = Some (js ''1''), timestamp = Some (js ''00:00:01,000 --> 00:00:02,000''),
              text_sub = js t, isHeader = None, isMalformed = None\<rparr>"

definition sampleParsed :: "ParsedSubtitle list" where
  "sampleParsed =
     [cueOf ''Hello'',
      cueOf ''[door slams] World'',
      (cueOf ''[Script Info]'')\<lparr>id_sub := None, timestamp := None, isHeader := Some True\<rparr>,
      cueOf ''(sighs) [x]'',
      (cueOf ''7 (oops)'')\<lparr>id_sub := None, timestamp := None, isMalformed := Some True\<rparr>,
      cueOf ''  '']"

definition sampleEnv :: env where
  "sampleEnv =
     \<lparr>readFileAsText = (\<lambda>f. if name f = js ''b.srt'' then Inl (Exn (js ''unreadable''))
                              else Inr (js ''doc'')),
      parseSubtitles = (\<lambda>t. Inr sampleParsed),
      reconstructSubtitles = (\<lambda>ps n. Inr (concat (map (\<lambda>p. text_sub p @ js ''|'') ps))),
      translateBatch = (\<lambda>i b ts src tgt p. if i = 0 then Inr [js ''Salom'', []]
                                             else Inl (Exn (js ''rejected''))),
      settleOrder = (\<lambda>i k. []),
      dateNow = (\<lambda>i. js ''0''),
      toLocaleString = (\<lambda>i. js ''now''),
      localStorage_setItem = (\<lambda>h. None)\<rparr>"

definition sampleItem :: "string \<Rightarrow> FileItem" where
  "sampleItem n = \<lparr>id_file = js n, file_obj = \<lparr>name = js n @ js ''.srt'', bytes = []\<rparr>,
                   status = Pending, originalText = [], translatedText = None, error = Null,
                   wordCount = 0\<rparr>"

definition sampleState :: AppState where
  "sampleState =
     \<lparr>step = SETTINGS, files = [sampleItem ''a'', sampleItem ''b'', sampleItem ''c''],
      sourceLang = js ''English'', targetLang = js ''Uzbek'', prompt = [], removeSDH = True,
      isProcessing = False, progress = 0, currentProcessingFile = [], history = [],
      trace = []\<rparr>"

text \<open>A cue whose text is one annotation in brackets, on two lines.\<close>

definition multilineCue :: ParsedSubtitle where
  "multilineCue =
     (cueOf ''x'')\<lparr>text_sub := LBRACKET # js ''door'' @ [0x0A] @ js ''slams'' @ [RBRACKET]\<rparr>"

text \<open>
  Five uploads for the failures of a file: \<open>b\<close> cannot be read, parsing \<open>d\<close>
  throws a value that is no \<^verbatim>\<open>Error\<close> object, reconstructing \<open>e\<close> throws.
\<close>

definition failingEnv :: env where
  "failingEnv =
     sampleEnv
       \<lparr>readFileAsText := (\<lambda>f. if name f = js ''b.srt'' then Inl (Exn (js ''unreadable''))
                               else if name f = js ''d.srt'' then Inr (js ''bad'')
                               else Inr (js ''doc'')),
        parseSubtitles := (\<lambda>t. if t = js ''bad'' then Inl (Thrown Undefined)
                               else Inr sampleParsed),
        reconstructSubtitles :=
          (\<lambda>ps n. if n = js ''e.srt'' then Inl (Exn (js ''cannot rebuild''))
                   else Inr (concat (map (\<lambda>p. text_sub p @ js ''|'') ps)))\<rparr>"

definition failingState :: AppState where
  "failingState =
     sampleState\<lparr>files := [sampleItem ''a'', sampleItem ''b'', sampleItem ''d'',
                             sampleItem ''e'', sampleItem ''c'']\<rparr>"

text \<open>The sample run, but reading \<open>b\<close> is rejected with \<^verbatim>\<open>undefined\<close>.\<close>

definition nullEnv :: env where
  "nullEnv =
     sampleEnv\<lparr>readFileAsText := (\<lambda>f. if name f = js ''b.srt'' then Inl Nullish
                                       else Inr (js ''doc''))\<rparr>"

section \<open>Notions in which the properties are stated\<close>

text \<open>
  The progress value as the specification words it: the index of the file plus
  the fraction of its translatable entries that are completed, over the number
  of files, times 100, capped at 99.
\<close>

definition cappedProgress :: "nat \<Rightarrow> nat \<Rightarrow> nat \<Rightarrow> nat \<Rightarrow> rat" where
  "cappedProgress totalFiles fileIndex completedEntries totalTranslatable =
     min (((of_nat fileIndex + of_nat completedEntries / of_nat totalTranslatable)
            / of_nat totalFiles) * 100) 99"

text \<open>
  What a list of events holds: the calls of \<^verbatim>\<open>translateBatch\<close> (index of the
  batch, entries of the batch, texts passed), the values passed to
  \<^verbatim>\<open>setProgress\<close>, and the arrays passed to \<^verbatim>\<open>reconstructSubtitles\<close>.
\<close>

fun callsMade :: "event list \<Rightarrow> (nat \<times> nat list \<times> jsstring list) list" where
  "callsMade [] = []"
| "callsMade (TranslateBatch i b bt texts src tgt p # evs) = (b, bt, texts) # callsMade evs"
| "callsMade (ev # evs) = callsMade evs"

fun progressOf :: "event list \<Rightarrow> rat list" where
  "progressOf [] = []"
| "progressOf (SetProgress v # evs) = v # progressOf evs"
| "progressOf (ev # evs) = progressOf evs"

fun reconstructCalls :: "event list \<Rightarrow> ParsedSubtitle list list" where
  "reconstructCalls [] = []"
| "reconstructCalls (ReconstructSubtitles ps n # evs) = ps # reconstructCalls evs"
| "reconstructCalls (ev # evs) = reconstructCalls evs"

text \<open>
  The calls in flight after a list of events, starting from those in \<open>F\<close>: a
  call is in flight from the moment it is made to the moment it settles.
\<close>

fun inFlight :: "event list \<Rightarrow> nat set \<Rightarrow> nat set" where
  "inFlight [] F = F"
| "inFlight (TranslateBatch i b bt texts src tgt p # evs) F = inFlight evs (insert b F)"
| "inFlight (Settled i b # evs) F = inFlight evs (F - {b})"
| "inFlight (ev # evs) F = inFlight evs F"

text \<open>
  At most \<open>CONCURRENT_LIMIT\<close> calls, all for batches of one window (batch \<open>b\<close>
  is in window \<open>b div CONCURRENT_LIMIT\<close>).
\<close>

definition oneWindow :: "nat set \<Rightarrow> bool" where
  "oneWindow F \<longleftrightarrow>
     finite F \<and> card F \<le> CONCURRENT_LIMIT \<and>
     (\<forall>x\<in>F. \<forall>y\<in>F. x div CONCURRENT_LIMIT = y div CONCURRENT_LIMIT)"

text \<open>
  A text made of white space and annotations only, an annotation being what
  one alternative of the pattern matches: an opening bracket, characters other
  than the closing bracket and the line terminators, and the closing bracket;
  or the same with parentheses.
\<close>

inductive annotationsOnly :: "jsstring \<Rightarrow> bool" where
  nothing: "annotationsOnly []"
| space: "isWhiteSpace x \<Longrightarrow> annotationsOnly s \<Longrightarrow> annotationsOnly (x # s)"
| bracket:
    "\<forall>x\<in>set body. x \<noteq> RBRACKET \<and> \<not> isLineTerminator x \<Longrightarrow> annotationsOnly s \<Longrightarrow>
     annotationsOnly (LBRACKET # body @ RBRACKET # s)"
| paren:
    "\<forall>x\<in>set body. x \<noteq> RPAREN \<and> \<not> isLineTerminator x \<Longrightarrow> annotationsOnly s \<Longrightarrow>
     annotationsOnly (LPAREN # body @ RPAREN # s)"

section \<open>Auxiliary notions\<close>

text \<open>An entry after the call for its batch has settled with answer \<open>ans\<close>.\<close>

definition settledEntry :: "exn + jsstring list \<Rightarrow> nat \<Rightarrow> ParsedSubtitle \<Rightarrow> ParsedSubtitle" where
  "settledEntry ans p e =
     (case ans of Inr tr \<Rightarrow> e\<lparr>text_sub := orText tr p (text_sub e)\<rparr> | Inl x \<Rightarrow> e)"

text \<open>The answer to the call for batch \<open>b\<close>, the texts being read from \<open>ps\<close>.\<close>

definition answerOf ::
  "env \<Rightarrow> AppState \<Rightarrow> nat \<Rightarrow> ParsedSubtitle list \<Rightarrow> nat \<Rightarrow> nat list \<Rightarrow> exn + jsstring list" where
  "answerOf E c i ps b bt =
     translateBatch E i b (map (\<lambda>s. text_sub (ps ! s)) bt) (sourceLang c) (targetLang c) (prompt c)"

definition callEvent :: "AppState \<Rightarrow> nat \<Rightarrow> ParsedSubtitle list \<Rightarrow> nat \<Rightarrow> nat list \<Rightarrow> event" where
  "callEvent c i ps b bt =
     TranslateBatch i b bt (map (\<lambda>s. text_sub (ps ! s)) bt) (sourceLang c) (targetLang c) (prompt c)"

text \<open>The calls of a window and the events of making them, from batch \<open>b\<close> on.\<close>

fun callsOf ::
  "env \<Rightarrow> AppState \<Rightarrow> nat \<Rightarrow> ParsedSubtitle list \<Rightarrow> nat \<Rightarrow> nat list list \<Rightarrow> call list" where
  "callsOf E c i ps b [] = []"
| "callsOf E c i ps b (bt # rest) =
     \<lparr>call_index = b, call_batch = bt, call_answer = answerOf E c i ps b bt\<rparr> #
     callsOf E c i ps (Suc b) rest"

fun callEvents :: "AppState \<Rightarrow> nat \<Rightarrow> ParsedSubtitle list \<Rightarrow> nat \<Rightarrow> nat list list \<Rightarrow> event list" where
  "callEvents c i ps b [] = []"
| "callEvents c i ps b (bt # rest) = callEvent c i ps b bt # callEvents c i ps (Suc b) rest"

text \<open>The events of settling the calls \<open>cls\<close> in this order, \<open>cnt\<close> entries being completed before.\<close>

fun settleEvents :: "AppState \<Rightarrow> nat \<Rightarrow> nat \<Rightarrow> nat \<Rightarrow> call list \<Rightarrow> event list" where
  "settleEvents c i nValid cnt [] = []"
| "settleEvents c i nValid cnt (cl # cls) =
     Settled i (call_index cl) #
     SetProgress (cappedProgress (length (files c)) i (cnt + length (call_batch cl)) nValid) #
     settleEvents c i nValid (cnt + length (call_batch cl)) cls"

text \<open>The events of the windows from batch \<open>k\<close> on, the texts being read from \<open>ps\<close>.\<close>

function loopEvents ::
  "env \<Rightarrow> AppState \<Rightarrow> nat \<Rightarrow> nat \<Rightarrow> ParsedSubtitle list \<Rightarrow> nat list list \<Rightarrow> nat \<Rightarrow> nat \<Rightarrow> event list"
  where
  "loopEvents E c i nV ps batches k cnt =
     (if k < length batches
      then callEvents c i ps k (slice batches k (k + CONCURRENT_LIMIT)) @
           settleEvents c i nV cnt
             (pickOrder (settleOrder E i k)
               (callsOf E c i ps k (slice batches k (k + CONCURRENT_LIMIT)))) @
           loopEvents E c i nV ps batches (k + CONCURRENT_LIMIT)
             (cnt + length (concat (slice batches k (k + CONCURRENT_LIMIT))))
      else [])"
  by pat_completeness auto
termination
  by (relation "measure (\<lambda>(E, c, i, nV, ps, batches, k, cnt). length batches - k)")
     (auto simp: CONCURRENT_LIMIT_def)

declare loopEvents.simps [simp del]

text \<open>\<open>oneWindow\<close> holds before each event of the list and after the last.\<close>

fun alwaysOneWindow :: "nat set \<Rightarrow> event list \<Rightarrow> bool" where
  "alwaysOneWindow F [] = oneWindow F"
| "alwaysOneWindow F (ev # evs) = (oneWindow F \<and> alwaysOneWindow (inFlight [ev] F) evs)"

text \<open>A file that has reached \<^verbatim>\<open>done\<close> or \<^verbatim>\<open>error\<close>.\<close>

definition terminal :: "FileItem \<Rightarrow> bool" where
  "terminal f \<longleftrightarrow> status f = Done \<or> status f = Error"

text \<open>The counts of completed entries after each of the batches of sizes \<open>ls\<close>.\<close>

fun runningCounts :: "nat \<Rightarrow> nat list \<Rightarrow> nat list" where
  "runningCounts cnt [] = []"
| "runningCounts cnt (l # ls) = (cnt + l) # runningCounts (cnt + l) ls"

text \<open>The progress when file \<open>j\<close> of \<open>N\<close> starts, capped.\<close>

definition fileFloor :: "nat \<Rightarrow> nat \<Rightarrow> rat" where
  "fileFloor N j = min (of_nat j / of_nat N * 100) 99"

section \<open>Notions about the settlements of a file and about the loop over the files\<close>

text \<open>The batches that settle in a list of events, in the order in which they settle.\<close>

fun settledOrder :: "event list \<Rightarrow> nat list" where
  "settledOrder [] = []"
| "settledOrder (Settled i b # evs) = b # settledOrder evs"
| "settledOrder (ev # evs) = settledOrder evs"

text \<open>
  The completed entries after a list of events: the entries of the batches
  that have settled in it, \<open>batches\<close> being the batches of the file. This is
  what \<^verbatim>\<open>completedSubtitlesCount\<close> is meant to hold.
\<close>

fun settledEntries :: "nat list list \<Rightarrow> event list \<Rightarrow> nat" where
  "settledEntries batches [] = 0"
| "settledEntries batches (Settled i b # evs) = length (batches ! b) + settledEntries batches evs"
| "settledEntries batches (ev # evs) = settledEntries batches evs"

text \<open>
  Walking a list of events with the count \<open>cnt\<close> of completed entries: every
  value passed to \<^verbatim>\<open>setProgress\<close> is the capped progress at the count reached.
\<close>

fun reportsCounts :: "nat \<Rightarrow> nat \<Rightarrow> nat \<Rightarrow> nat list list \<Rightarrow> nat \<Rightarrow> event list \<Rightarrow> bool" where
  "reportsCounts N i nV batches cnt [] = True"
| "reportsCounts N i nV batches cnt (Settled i' b # evs) =
     reportsCounts N i nV batches (cnt + length (batches ! b)) evs"
| "reportsCounts N i nV batches cnt (SetProgress v # evs) =
     (v = cappedProgress N i cnt nV \<and> reportsCounts N i nV batches cnt evs)"
| "reportsCounts N i nV batches cnt (ev # evs) = reportsCounts N i nV batches cnt evs"

text \<open>
  A step of file \<open>i\<close> throws \<open>e\<close>: reading it, parsing what was read, or
  reconstructing the entries as the translation has left them.
\<close>

inductive stepThrows :: "env \<Rightarrow> AppState \<Rightarrow> nat \<Rightarrow> FileItem \<Rightarrow> exn \<Rightarrow> bool"
  for E c i fileItem where
  read: "readFileAsText E (file_obj fileItem) = Inl e \<Longrightarrow> stepThrows E c i fileItem e"
| parse:
    "readFileAsText E (file_obj fileItem) = Inr tx \<Longrightarrow> parseSubtitles E tx = Inl e \<Longrightarrow>
     stepThrows E c i fileItem e"
| reconstruct:
    "readFileAsText E (file_obj fileItem) = Inr tx \<Longrightarrow> parseSubtitles E tx = Inr parsed \<Longrightarrow>
     reconstructSubtitles E (entries (translateChunks E c i parsed)) (name (file_obj fileItem)) =
       Inl e \<Longrightarrow>
     stepThrows E c i fileItem e"

text \<open>
  What the \<^verbatim>\<open>catch\<close> clause of file \<open>i\<close> receives, if anything: what a step
  throws, or else what writing the history throws.
\<close>

definition caught :: "env \<Rightarrow> AppState \<Rightarrow> nat \<Rightarrow> FileItem \<Rightarrow> exn option" where
  "caught E c i fileItem =
     (case fst (translateFile E c i fileItem) of
        Inl e \<Rightarrow> Some e
      | Inr r \<Rightarrow> localStorage_setItem E (newHistory E c i fileItem))"

text \<open>The \<^verbatim>\<open>catch\<close> clause of file \<open>j\<close> receives \<^verbatim>\<open>null\<close> or \<^verbatim>\<open>undefined\<close>.\<close>

definition stopsAt :: "env \<Rightarrow> AppState \<Rightarrow> nat \<Rightarrow> bool" where
  "stopsAt E c j \<longleftrightarrow> caught E c j (files c ! j) = Some Nullish"

text \<open>
  Where the loop over the files ends when it is at file \<open>i\<close>: after the first
  file from \<open>i\<close> on at which it stops, or after the last file.
\<close>

definition loopEnd :: "env \<Rightarrow> AppState \<Rightarrow> nat \<Rightarrow> nat" where
  "loopEnd E c i =
     (case find (stopsAt E c) [i..<length (files c)] of
        None \<Rightarrow> length (files c)
      | Some j \<Rightarrow> Suc j)"

text \<open>The loop stops at no file from \<open>i\<close> on.\<close>

definition completes :: "env \<Rightarrow> AppState \<Rightarrow> nat \<Rightarrow> bool" where
  "completes E c i \<longleftrightarrow> \<not> list_ex (stopsAt E c) [i..<length (files c)]"

fun raised :: "flow \<Rightarrow> bool" where
  "raised (Normal s) = False"
| "raised (Raised s) = True"

text \<open>
  What the body of the loop makes of an element \<open>f\<close> of \<^verbatim>\<open>files\<close> that has
  the id of \<open>fileItem\<close>, the file with index \<open>i\<close>.
\<close>

definition fileOutcome :: "env \<Rightarrow> AppState \<Rightarrow> nat \<Rightarrow> FileItem \<Rightarrow> FileItem \<Rightarrow> FileItem" where
  "fileOutcome E c i fileItem f =
     (case fst (translateFile E c i fileItem) of
        Inl e \<Rightarrow>
          (case e of Thrown v \<Rightarrow> f\<lparr>status := Error, error := v\<rparr>
                   | Nullish \<Rightarrow> f\<lparr>status := Processing\<rparr>)
      | Inr (text, finalText) \<Rightarrow>
          (case localStorage_setItem E (newHistory E c i fileItem) of
             None \<Rightarrow> fileItem\<lparr>status := Done, originalText := text,
                      translatedText := Some finalText, wordCount := splitCount finalText\<rparr>
           | Some e \<Rightarrow>
               (case e of
                  Thrown v \<Rightarrow> fileItem\<lparr>status := Error, originalText := text,
                      translatedText := Some finalText, wordCount := splitCount finalText,
                      error := v\<rparr>
                | Nullish \<Rightarrow> fileItem\<lparr>status := Done, originalText := text,
                      translatedText := Some finalText, wordCount := splitCount finalText\<rparr>)))"

section \<open>Facts about the model\<close>

lemma batchLoop_concat: "concat (batchLoop vs j) = drop j vs"
proof (induction vs j rule: batchLoop.induct)
  case (1 vs j)
  show ?case
  proof (cases "j < length vs")
    case True
    have "concat (batchLoop vs j) = take BATCH_SIZE (drop j vs) @ drop (j + BATCH_SIZE) vs"
      using True 1 by (subst batchLoop.simps) (simp add: slice_def)
    also have "\<dots> = drop j vs"
      by (simp add: add.commute flip: drop_drop)
    finally show ?thesis .
  next
    case False
    then show ?thesis by (subst batchLoop.simps) simp
  qed
qed

lemma batchLoop_sizes: "bt \<in> set (batchLoop vs j) \<Longrightarrow> bt \<noteq> [] \<and> length bt \<le> BATCH_SIZE"
proof (induction vs j rule: batchLoop.induct)
  case (1 vs j)
  show ?case
  proof (cases "j < length vs")
    case True
    from 1(2) have "bt = slice vs j (j + BATCH_SIZE) \<or> bt \<in> set (batchLoop vs (j + BATCH_SIZE))"
      using True by (subst (asm) batchLoop.simps) simp
    then show ?thesis
    proof
      assume "bt = slice vs j (j + BATCH_SIZE)"
      then show ?thesis using True by (simp add: slice_def BATCH_SIZE_def)
    next
      assume "bt \<in> set (batchLoop vs (j + BATCH_SIZE))"
      then show ?thesis using 1(1) True by simp
    qed
  next
    case False
    with 1(2) show ?thesis by (subst (asm) batchLoop.simps) simp
  qed
qed

lemma batchLoop_length: "length (batchLoop vs j) = (length vs - j + (BATCH_SIZE - 1)) div BATCH_SIZE"
proof (induction vs j rule: batchLoop.induct)
  case (1 vs j)
  show ?case
  proof (cases "j < length vs")
    case True
    have "length (batchLoop vs j) = Suc (length (batchLoop vs (j + BATCH_SIZE)))"
      using True by (subst batchLoop.simps) simp
    also have "\<dots> = Suc ((length vs - (j + BATCH_SIZE) + (BATCH_SIZE - 1)) div BATCH_SIZE)"
      using 1 True by simp
    also have "\<dots> = (length vs - j + (BATCH_SIZE - 1)) div BATCH_SIZE"
    proof -
      define m where "m = length vs - j - 1"
      have a: "length vs - j + 99 = m + 100" using True by (simp add: m_def)
      have b: "(length vs - (j + 100) + 99) div 100 = m div 100"
      proof (cases "100 \<le> length vs - j")
        case True
        then have "length vs - (j + 100) + 99 = m" by (simp add: m_def)
        then show ?thesis by simp
      next
        case False
        then have "length vs - (j + 100) + 99 = 99" "m < 100" by (simp_all add: m_def)
        then show ?thesis by simp
      qed
      show ?thesis unfolding BATCH_SIZE_def using a b by simp
    qed
    finally show ?thesis .
  next
    case False
    then show ?thesis by (subst batchLoop.simps) (simp add: BATCH_SIZE_def)
  qed
qed

lemma batchLoop_nth:
  "b < length (batchLoop vs j) \<Longrightarrow>
   batchLoop vs j ! b = slice vs (j + b * BATCH_SIZE) (j + b * BATCH_SIZE + BATCH_SIZE)"
proof (induction vs j arbitrary: b rule: batchLoop.induct)
  case (1 vs j)
  show ?case
  proof (cases "j < length vs")
    case True
    have eq: "batchLoop vs j = slice vs j (j + BATCH_SIZE) # batchLoop vs (j + BATCH_SIZE)"
      using True by (subst batchLoop.simps) simp
    show ?thesis
    proof (cases b)
      case 0
      then show ?thesis by (simp add: eq)
    next
      case (Suc b')
      with 1(2) eq have "b' < length (batchLoop vs (j + BATCH_SIZE))" by simp
      from 1(1)[OF True this] show ?thesis
        by (simp add: eq Suc algebra_simps)
    qed
  next
    case False
    with 1(2) show ?thesis by (subst (asm) batchLoop.simps) simp
  qed
qed

lemma forEach_assign_length [simp]: "length (forEach_assign bt idx tr ps) = length ps"
  by (induction bt arbitrary: idx ps) auto

lemma forEach_assign_frame:
  "r \<notin> set bt \<Longrightarrow> forEach_assign bt idx tr ps ! r = ps ! r"
  by (induction bt arbitrary: idx ps) auto

lemma forEach_assign_effect:
  "distinct bt \<Longrightarrow> \<forall>r\<in>set bt. r < length ps \<Longrightarrow> p < length bt \<Longrightarrow>
   forEach_assign bt idx tr ps ! (bt ! p) =
     (ps ! (bt ! p))\<lparr>text_sub := orText tr (idx + p) (text_sub (ps ! (bt ! p)))\<rparr>"
proof (induction bt arbitrary: idx ps p)
  case Nil
  then show ?case by simp
next
  case (Cons r rest)
  show ?case
  proof (cases p)
    case 0
    then show ?thesis using Cons.prems by (simp add: forEach_assign_frame)
  next
    case (Suc p')
    let ?ps = "ps[r := (ps ! r)\<lparr>text_sub := orText tr idx (text_sub (ps ! r))\<rparr>]"
    have ne: "rest ! p' \<noteq> r" using Cons.prems Suc by auto
    have "forEach_assign rest (Suc idx) tr ?ps ! (rest ! p') =
      (?ps ! (rest ! p'))\<lparr>text_sub := orText tr (Suc idx + p') (text_sub (?ps ! (rest ! p')))\<rparr>"
      using Cons.prems Suc by (intro Cons.IH) auto
    then show ?thesis using ne by (simp add: Suc)
  qed
qed

lemma pickOrder_mset: "mset (pickOrder ns xs) = mset xs"
proof (induction ns arbitrary: xs)
  case Nil
  then show ?case by simp
next
  case (Cons n ns)
  show ?case
  proof (cases "xs = []")
    case True
    then show ?thesis by simp
  next
    case False
    let ?j = "n mod length xs"
    have j: "?j < length xs" using False by simp
    have "mset xs = mset (take ?j xs @ xs ! ?j # drop (Suc ?j) xs)"
      using j by (simp add: id_take_nth_drop[symmetric])
    then show ?thesis using False Cons.IH by (simp add: Let_def)
  qed
qed

lemma settle_entries:
  "entries (processBatch_settle c i nV cl st) =
     (case call_answer cl of
        Inr tr \<Rightarrow> forEach_assign (call_batch cl) 0 tr (entries st)
      | Inl e \<Rightarrow> entries st)"
  by (simp add: processBatch_settle_def Let_def split: sum.splits)

lemma settle_completed:
  "completedSubtitlesCount (processBatch_settle c i nV cl st) =
     completedSubtitlesCount st + length (call_batch cl)"
  by (simp add: processBatch_settle_def Let_def split: sum.splits)

lemma settle_emitted:
  "emitted (processBatch_settle c i nV cl st) =
     emitted st @ [Settled i (call_index cl),
       SetProgress (cappedProgress (length (files c)) i
         (completedSubtitlesCount st + length (call_batch cl)) nV)]"
  by (simp add: processBatch_settle_def Let_def cappedProgress_def split: sum.splits)

lemma fold_settle_length:
  "length (entries (fold (processBatch_settle c i nV) cls st)) = length (entries st)"
  by (induction cls arbitrary: st) (auto simp: settle_entries split: sum.splits)

lemma fold_settle_completed:
  "completedSubtitlesCount (fold (processBatch_settle c i nV) cls st) =
     completedSubtitlesCount st + length (concat (map call_batch cls))"
  by (induction cls arbitrary: st) (auto simp: settle_completed)

lemma fold_settle_emitted:
  "emitted (fold (processBatch_settle c i nV) cls st) =
     emitted st @ settleEvents c i nV (completedSubtitlesCount st) cls"
  by (induction cls arbitrary: st) (auto simp: settle_completed settle_emitted)

lemma fold_settle_frame:
  "r \<notin> set (concat (map call_batch cls)) \<Longrightarrow>
   entries (fold (processBatch_settle c i nV) cls st) ! r = entries st ! r"
  by (induction cls arbitrary: st)
     (auto simp: settle_entries forEach_assign_frame split: sum.splits)

lemma settle_effect:
  assumes "distinct (call_batch cl)" "\<forall>r\<in>set (call_batch cl). r < length (entries st)"
    "p < length (call_batch cl)"
  shows "entries (processBatch_settle c i nV cl st) ! (call_batch cl ! p) =
           settledEntry (call_answer cl) p (entries st ! (call_batch cl ! p))"
  using assms forEach_assign_effect[of "call_batch cl" "entries st" p 0]
  by (simp add: settle_entries settledEntry_def split: sum.splits)

lemma settle_frame:
  "r \<notin> set (call_batch cl) \<Longrightarrow>
   entries (processBatch_settle c i nV cl st) ! r = entries st ! r"
  by (simp add: settle_entries forEach_assign_frame split: sum.splits)

lemma settle_length:
  "length (entries (processBatch_settle c i nV cl st)) = length (entries st)"
  by (simp add: settle_entries split: sum.splits)

lemma fold_settle_effect:
  assumes "distinct (concat (map call_batch cls))"
    "\<forall>r\<in>set (concat (map call_batch cls)). r < length (entries st)"
    "cl \<in> set cls" "p < length (call_batch cl)"
  shows "entries (fold (processBatch_settle c i nV) cls st) ! (call_batch cl ! p) =
           settledEntry (call_answer cl) p (entries st ! (call_batch cl ! p))"
  using assms
proof (induction cls arbitrary: st)
  case Nil
  then show ?case by simp
next
  case (Cons a cls)
  let ?st = "processBatch_settle c i nV a st"
  have da: "distinct (call_batch a)" and dr: "distinct (concat (map call_batch cls))"
    and disj: "set (call_batch a) \<inter> set (concat (map call_batch cls)) = {}"
    using Cons.prems(1) by auto
  have rng: "\<forall>r\<in>set (concat (map call_batch cls)). r < length (entries ?st)"
    using Cons.prems(2) by (simp add: settle_length)
  have mem: "call_batch cl ! p \<in> set (call_batch cl)" using Cons.prems(4) by simp
  show ?case
  proof (cases "cl \<in> set cls")
    case True
    then have nin: "call_batch cl ! p \<notin> set (call_batch a)" using disj mem by auto
    have "entries (fold (processBatch_settle c i nV) cls ?st) ! (call_batch cl ! p) =
            settledEntry (call_answer cl) p (entries ?st ! (call_batch cl ! p))"
      using dr rng True Cons.prems(4) by (rule Cons.IH)
    then show ?thesis using nin by (simp add: settle_frame)
  next
    case False
    with Cons.prems(3) have [simp]: "cl = a" by simp
    have nin: "call_batch a ! p \<notin> set (concat (map call_batch cls))" using disj mem by auto
    have "entries (fold (processBatch_settle c i nV) cls ?st) ! (call_batch a ! p) =
            entries ?st ! (call_batch a ! p)"
      using nin by (rule fold_settle_frame)
    also have "\<dots> = settledEntry (call_answer a) p (entries st ! (call_batch a ! p))"
      using da Cons.prems(2,4) by (intro settle_effect) auto
    finally show ?thesis by simp
  qed
qed

lemma dispatchAll_eq:
  "dispatchAll E c i b chunk st =
     (callsOf E c i (entries st) b chunk,
      st\<lparr>emitted := emitted st @ callEvents c i (entries st) b chunk\<rparr>)"
  by (induction chunk arbitrary: b st)
     (simp_all add: processBatch_call_def answerOf_def callEvent_def Let_def)

lemma callsOf_batches [simp]: "map call_batch (callsOf E c i ps b chunk) = chunk"
  by (induction chunk arbitrary: b) simp_all

lemma callsOf_length [simp]: "length (callsOf E c i ps b chunk) = length chunk"
  by (induction chunk arbitrary: b) simp_all

lemma callsOf_nth:
  "p < length chunk \<Longrightarrow>
   callsOf E c i ps b chunk ! p =
     \<lparr>call_index = b + p, call_batch = chunk ! p, call_answer = answerOf E c i ps (b + p) (chunk ! p)\<rparr>"
proof (induction chunk arbitrary: b p)
  case Nil
  then show ?case by simp
next
  case (Cons bt rest)
  then show ?case by (cases p) simp_all
qed

lemma mset_concat_map_cong:
  "mset xs = mset ys \<Longrightarrow> mset (concat (map f xs)) = mset (concat (map f ys))"
proof -
  assume "mset xs = mset ys"
  then have "mset (map (\<lambda>x. mset (f x)) xs) = mset (map (\<lambda>x. mset (f x)) ys)"
    by simp
  then have "sum_list (map (\<lambda>x. mset (f x)) xs) = sum_list (map (\<lambda>x. mset (f x)) ys)"
    by (metis sum_mset_sum_list)
  then show ?thesis by (simp add: mset_concat comp_def)
qed

lemma pickOrder_concat_mset:
  "mset (concat (map f (pickOrder ns xs))) = mset (concat (map f xs))"
  by (rule mset_concat_map_cong) (rule pickOrder_mset)

lemma pickOrder_set [simp]: "set (pickOrder ns xs) = set xs"
  by (rule mset_eq_setD) (rule pickOrder_mset)

lemma pickOrder_concat_set:
  "set (concat (map f (pickOrder ns xs))) = set (concat (map f xs))"
  by (rule mset_eq_setD) (rule pickOrder_concat_mset)

lemma pickOrder_concat_distinct:
  "distinct (concat (map f (pickOrder ns xs))) = distinct (concat (map f xs))"
  by (rule mset_eq_imp_distinct_iff) (rule pickOrder_concat_mset)

lemma pickOrder_concat_length:
  "length (concat (map f (pickOrder ns xs))) = length (concat (map f xs))"
  by (rule mset_eq_length) (rule pickOrder_concat_mset)

lemma runWindow_eq:
  "runWindow E c i nV k chunk st =
     fold (processBatch_settle c i nV)
       (pickOrder (settleOrder E i k) (callsOf E c i (entries st) k chunk))
       (st\<lparr>emitted := emitted st @ callEvents c i (entries st) k chunk\<rparr>)"
  by (simp add: runWindow_def dispatchAll_eq)

lemma runWindow_length:
  "length (entries (runWindow E c i nV k chunk st)) = length (entries st)"
  by (simp add: runWindow_eq fold_settle_length)

lemma runWindow_completed:
  "completedSubtitlesCount (runWindow E c i nV k chunk st) =
     completedSubtitlesCount st + length (concat chunk)"
  by (simp add: runWindow_eq fold_settle_completed pickOrder_concat_length)

lemma runWindow_emitted:
  "emitted (runWindow E c i nV k chunk st) =
     emitted st @ callEvents c i (entries st) k chunk @
     settleEvents c i nV (completedSubtitlesCount st)
       (pickOrder (settleOrder E i k) (callsOf E c i (entries st) k chunk))"
  by (simp add: runWindow_eq fold_settle_emitted)

lemma runWindow_frame:
  "r \<notin> set (concat chunk) \<Longrightarrow> entries (runWindow E c i nV k chunk st) ! r = entries st ! r"
  by (simp add: runWindow_eq fold_settle_frame pickOrder_concat_set del: set_concat)

lemma runWindow_effect:
  assumes "distinct (concat chunk)" "\<forall>r\<in>set (concat chunk). r < length (entries st)"
    "p < length chunk" "q < length (chunk ! p)"
  shows "entries (runWindow E c i nV k chunk st) ! (chunk ! p ! q) =
           settledEntry (answerOf E c i (entries st) (k + p) (chunk ! p)) q
             (entries st ! (chunk ! p ! q))"
proof -
  let ?cls = "callsOf E c i (entries st) k chunk"
  let ?cl = "?cls ! p"
  let ?st = "st\<lparr>emitted := emitted st @ callEvents c i (entries st) k chunk\<rparr>"
  have cl: "?cl = \<lparr>call_index = k + p, call_batch = chunk ! p,
      call_answer = answerOf E c i (entries st) (k + p) (chunk ! p)\<rparr>"
    using assms(3) by (rule callsOf_nth)
  have 1: "distinct (concat (map call_batch (pickOrder (settleOrder E i k) ?cls)))"
    using assms(1) by (simp add: pickOrder_concat_distinct)
  have 2: "\<forall>r\<in>set (concat (map call_batch (pickOrder (settleOrder E i k) ?cls))).
             r < length (entries ?st)"
    using assms(2) by (simp add: pickOrder_concat_set del: set_concat)
  have 3: "?cl \<in> set (pickOrder (settleOrder E i k) ?cls)"
    using assms(3) by simp
  have 4: "q < length (call_batch ?cl)" using assms(4) cl by simp
  from fold_settle_effect[OF 1 2 3 4, of c i nV]
  show ?thesis by (simp add: runWindow_eq cl)
qed

lemma drop_window:
  "drop k batches = slice batches k (k + CONCURRENT_LIMIT) @ drop (k + CONCURRENT_LIMIT) batches"
  by (simp add: slice_def add.commute flip: drop_drop)

lemma concat_drop_window:
  "concat (drop k batches) =
     concat (slice batches k (k + CONCURRENT_LIMIT)) @ concat (drop (k + CONCURRENT_LIMIT) batches)"
  by (subst drop_window) simp

lemma slice_nth: "p < length (slice xs a b) \<Longrightarrow> slice xs a b ! p = xs ! (a + p)"
  by (cases "a \<le> length xs") (simp_all add: slice_def)

lemma slice_length: "length (slice xs a b) = min (b - a) (length xs - a)"
  by (simp add: slice_def min.commute)

lemma windowLoop_step:
  "k < length batches \<Longrightarrow>
   windowLoop E c i nV batches k st =
     windowLoop E c i nV batches (k + CONCURRENT_LIMIT)
       (runWindow E c i nV k (slice batches k (k + CONCURRENT_LIMIT)) st)"
  by (subst windowLoop.simps) simp

lemma windowLoop_stop: "\<not> k < length batches \<Longrightarrow> windowLoop E c i nV batches k st = st"
  by (subst windowLoop.simps) simp

lemma windowLoop_length:
  "length (entries (windowLoop E c i nV batches k st)) = length (entries st)"
proof (induction E c i nV batches k st rule: windowLoop.induct)
  case (1 E c i nV batches k st)
  show ?case
  proof (cases "k < length batches")
    case True
    then show ?thesis using 1 by (simp add: windowLoop_step runWindow_length)
  next
    case False
    then show ?thesis by (simp add: windowLoop_stop)
  qed
qed

lemma windowLoop_completed:
  "completedSubtitlesCount (windowLoop E c i nV batches k st) =
     completedSubtitlesCount st + length (concat (drop k batches))"
proof (induction E c i nV batches k st rule: windowLoop.induct)
  case (1 E c i nV batches k st)
  show ?case
  proof (cases "k < length batches")
    case True
    have "length (concat (drop k batches)) =
        length (concat (slice batches k (k + CONCURRENT_LIMIT))) +
        length (concat (drop (k + CONCURRENT_LIMIT) batches))"
      by (subst concat_drop_window) simp
    then show ?thesis using 1 True by (simp add: windowLoop_step runWindow_completed)
  next
    case False
    then show ?thesis by (simp add: windowLoop_stop)
  qed
qed

lemma windowLoop_frame:
  "r \<notin> set (concat (drop k batches)) \<Longrightarrow>
   entries (windowLoop E c i nV batches k st) ! r = entries st ! r"
proof (induction E c i nV batches k st rule: windowLoop.induct)
  case (1 E c i nV batches k st)
  show ?case
  proof (cases "k < length batches")
    case True
    let ?chunk = "slice batches k (k + CONCURRENT_LIMIT)"
    from "1.prems" have a: "r \<notin> set (concat ?chunk)"
      and b: "r \<notin> set (concat (drop (k + CONCURRENT_LIMIT) batches))"
      by (subst (asm) concat_drop_window, simp)+
    show ?thesis using "1.IH"[OF True b] a True
      by (simp add: windowLoop_step runWindow_frame del: set_concat)
  next
    case False
    then show ?thesis by (simp add: windowLoop_stop)
  qed
qed

lemma answerOf_cong:
  "\<forall>r\<in>set bt. text_sub (ps' ! r) = text_sub (ps ! r) \<Longrightarrow>
   answerOf E c i ps' b bt = answerOf E c i ps b bt"
proof -
  assume "\<forall>r\<in>set bt. text_sub (ps' ! r) = text_sub (ps ! r)"
  then have "map (\<lambda>s. text_sub (ps' ! s)) bt = map (\<lambda>s. text_sub (ps ! s)) bt" by simp
  then show ?thesis by (simp only: answerOf_def)
qed

lemma windowLoop_effect:
  assumes "distinct (concat (drop k batches))"
    "\<forall>r\<in>set (concat (drop k batches)). r < length (entries st)"
    "k \<le> b" "b < length batches" "q < length (batches ! b)"
  shows "entries (windowLoop E c i nV batches k st) ! (batches ! b ! q) =
           settledEntry (answerOf E c i (entries st) b (batches ! b)) q
             (entries st ! (batches ! b ! q))"
  using assms
proof (induction E c i nV batches k st rule: windowLoop.induct)
  case (1 E c i nV batches k st)
  let ?chunk = "slice batches k (k + CONCURRENT_LIMIT)"
  let ?rest = "drop (k + CONCURRENT_LIMIT) batches"
  let ?st = "runWindow E c i nV k ?chunk st"
  have lt: "k < length batches" using "1.prems" by simp
  have dc: "distinct (concat ?chunk)" and dr: "distinct (concat ?rest)"
    and disj: "set (concat ?chunk) \<inter> set (concat ?rest) = {}"
    using "1.prems"(1) by (subst (asm) concat_drop_window, simp)+
  have rc: "\<forall>r\<in>set (concat ?chunk). r < length (entries st)"
    and rr: "\<forall>r\<in>set (concat ?rest). r < length (entries st)"
    using "1.prems"(2) by (subst (asm) concat_drop_window, simp)+
  show ?case
  proof (cases "b < k + CONCURRENT_LIMIT")
    case True
    define p where "p = b - k"
    have b: "b = k + p" using "1.prems"(3) by (simp add: p_def)
    have p: "p < length ?chunk"
      using True "1.prems"(3,4) unfolding slice_length p_def by arith
    have nth: "?chunk ! p = batches ! b" using p by (simp add: slice_nth b)
    have q: "q < length (?chunk ! p)" using "1.prems"(5) nth by simp
    have mem: "batches ! b ! q \<in> set (concat ?chunk)"
      using p q nth by (metis nth_mem set_concat UN_I)
    then have nin: "batches ! b ! q \<notin> set (concat ?rest)" using disj by auto
    have "entries (windowLoop E c i nV batches k st) ! (batches ! b ! q) =
            entries ?st ! (batches ! b ! q)"
      using lt nin by (simp add: windowLoop_step windowLoop_frame del: set_concat)
    also have "\<dots> = settledEntry (answerOf E c i (entries st) (k + p) (?chunk ! p)) q
             (entries st ! (?chunk ! p ! q))"
      using runWindow_effect[OF dc rc p q] nth by simp
    finally show ?thesis by (simp add: nth b)
  next
    case False
    then have kb: "k + CONCURRENT_LIMIT \<le> b" by simp
    have rr': "\<forall>r\<in>set (concat ?rest). r < length (entries ?st)"
      using rr by (simp add: runWindow_length del: set_concat)
    have "?rest ! (b - (k + CONCURRENT_LIMIT)) = batches ! b"
      using kb "1.prems"(4) by simp
    moreover have "b - (k + CONCURRENT_LIMIT) < length ?rest"
      using kb "1.prems"(4) by simp
    ultimately have memb: "batches ! b \<in> set ?rest"
      by (metis nth_mem)
    have same: "\<forall>r\<in>set (batches ! b). entries ?st ! r = entries st ! r"
    proof
      fix r assume "r \<in> set (batches ! b)"
      with memb have "r \<in> set (concat ?rest)" by auto
      with disj have "r \<notin> set (concat ?chunk)" by auto
      then show "entries ?st ! r = entries st ! r" by (rule runWindow_frame)
    qed
    have ans: "answerOf E c i (entries ?st) b (batches ! b) =
        answerOf E c i (entries st) b (batches ! b)"
      by (rule answerOf_cong) (simp add: same)
    have "entries (windowLoop E c i nV batches (k + CONCURRENT_LIMIT) ?st) ! (batches ! b ! q) =
           settledEntry (answerOf E c i (entries ?st) b (batches ! b)) q
             (entries ?st ! (batches ! b ! q))"
      using lt dr rr' kb "1.prems"(4,5) by (rule "1.IH")
    then show ?thesis using lt same "1.prems"(5) by (simp add: windowLoop_step ans)
  qed
qed

lemma callEvents_cong:
  "\<forall>r\<in>set (concat chunk). text_sub (ps' ! r) = text_sub (ps ! r) \<Longrightarrow>
   callEvents c i ps' b chunk = callEvents c i ps b chunk"
proof (induction chunk arbitrary: b)
  case Nil
  then show ?case by simp
next
  case (Cons bt rest)
  have "map (\<lambda>s. text_sub (ps' ! s)) bt = map (\<lambda>s. text_sub (ps ! s)) bt"
    using Cons.prems by simp
  then have "callEvent c i ps' b bt = callEvent c i ps b bt"
    by (simp only: callEvent_def)
  then show ?case using Cons by simp
qed

lemma callsOf_cong:
  "\<forall>r\<in>set (concat chunk). text_sub (ps' ! r) = text_sub (ps ! r) \<Longrightarrow>
   callsOf E c i ps' b chunk = callsOf E c i ps b chunk"
proof (induction chunk arbitrary: b)
  case Nil
  then show ?case by simp
next
  case (Cons bt rest)
  have "answerOf E c i ps' b bt = answerOf E c i ps b bt"
    using Cons.prems by (intro answerOf_cong) simp
  then show ?case using Cons by simp
qed

lemma windowLoop_emitted:
  assumes "distinct (concat (drop k batches))"
    "\<forall>r\<in>set (concat (drop k batches)). text_sub (entries st ! r) = text_sub (ps ! r)"
  shows "emitted (windowLoop E c i nV batches k st) =
           emitted st @ loopEvents E c i nV ps batches k (completedSubtitlesCount st)"
  using assms
proof (induction E c i nV batches k st rule: windowLoop.induct)
  case (1 E c i nV batches k st)
  let ?chunk = "slice batches k (k + CONCURRENT_LIMIT)"
  let ?rest = "drop (k + CONCURRENT_LIMIT) batches"
  let ?st = "runWindow E c i nV k ?chunk st"
  show ?case
  proof (cases "k < length batches")
    case True
    have dr: "distinct (concat ?rest)"
      and disj: "set (concat ?chunk) \<inter> set (concat ?rest) = {}"
      using "1.prems"(1) by (subst (asm) concat_drop_window, simp)+
    have tc: "\<forall>r\<in>set (concat ?chunk). text_sub (entries st ! r) = text_sub (ps ! r)"
      and tr: "\<forall>r\<in>set (concat ?rest). text_sub (entries st ! r) = text_sub (ps ! r)"
      using "1.prems"(2) by (subst (asm) concat_drop_window, simp)+
    have tr': "\<forall>r\<in>set (concat ?rest). text_sub (entries ?st ! r) = text_sub (ps ! r)"
    proof
      fix r assume r: "r \<in> set (concat ?rest)"
      with disj have "r \<notin> set (concat ?chunk)" by auto
      then have "entries ?st ! r = entries st ! r" by (rule runWindow_frame)
      with tr r show "text_sub (entries ?st ! r) = text_sub (ps ! r)"
        by (simp del: set_concat)
    qed
    have "emitted (windowLoop E c i nV batches (k + CONCURRENT_LIMIT) ?st) =
        emitted ?st @ loopEvents E c i nV ps batches (k + CONCURRENT_LIMIT)
          (completedSubtitlesCount ?st)"
      using True dr tr' by (rule "1.IH")
    then show ?thesis
      using True
      by (subst loopEvents.simps)
         (simp add: windowLoop_step runWindow_emitted runWindow_completed
            callEvents_cong[OF tc] callsOf_cong[OF tc])
  next
    case False
    then show ?thesis by (subst loopEvents.simps) (simp add: windowLoop_stop)
  qed
qed

lemma callsMade_append [simp]: "callsMade (xs @ ys) = callsMade xs @ callsMade ys"
  by (induction xs rule: callsMade.induct) simp_all

lemma progressOf_append [simp]: "progressOf (xs @ ys) = progressOf xs @ progressOf ys"
  by (induction xs rule: progressOf.induct) simp_all

lemma callsMade_settleEvents [simp]: "callsMade (settleEvents c i nV cnt cls) = []"
  by (induction cls arbitrary: cnt) simp_all

lemma callsMade_callEvents:
  "callsMade (callEvents c i ps k chunk) =
     map (\<lambda>(b, bt). (b, bt, map (\<lambda>s. text_sub (ps ! s)) bt)) (zip [k..<k + length chunk] chunk)"
proof (induction chunk arbitrary: k)
  case Nil
  then show ?case by simp
next
  case (Cons bt rest)
  have "[k..<k + length (bt # rest)] = k # [Suc k..<Suc k + length rest]"
    by (subst upt_rec) simp
  then show ?case using Cons by (simp add: callEvent_def del: upt.simps)
qed

lemma zip_upt_drop:
  "zip [k..<length xs] (drop k xs) = map (\<lambda>b. (b, xs ! b)) [k..<length xs]"
  by (rule nth_equalityI) (simp_all add: min_def)

lemma callsMade_loopEvents:
  "callsMade (loopEvents E c i nV ps batches k cnt) =
     map (\<lambda>b. (b, batches ! b, map (\<lambda>s. text_sub (ps ! s)) (batches ! b))) [k..<length batches]"
proof (induction E c i nV ps batches k cnt rule: loopEvents.induct)
  case (1 E c i nV ps batches k cnt)
  show ?case
  proof (cases "k < length batches")
    case True
    let ?chunk = "slice batches k (k + CONCURRENT_LIMIT)"
    let ?m = "min (k + CONCURRENT_LIMIT) (length batches)"
    have len: "k + length ?chunk = ?m" using True unfolding slice_length by arith
    then have len': "length ?chunk = ?m - k" by arith
    have "zip [k..<?m] ?chunk = map (\<lambda>b. (b, batches ! b)) [k..<?m]"
    proof (rule nth_equalityI)
      show "length (zip [k..<?m] ?chunk) = length (map (\<lambda>b. (b, batches ! b)) [k..<?m])"
        using len' by simp
    next
      fix n assume "n < length (zip [k..<?m] ?chunk)"
      then have n: "n < length ?chunk" "n < ?m - k" using len' by simp_all
      then have "k + n < ?m" by arith
      with n show "zip [k..<?m] ?chunk ! n = map (\<lambda>b. (b, batches ! b)) [k..<?m] ! n"
        by (simp add: slice_nth del: upt.simps)
    qed
    then have a: "callsMade (callEvents c i ps k ?chunk) =
        map (\<lambda>b. (b, batches ! b, map (\<lambda>s. text_sub (ps ! s)) (batches ! b))) [k..<?m]"
      by (simp add: callsMade_callEvents len)
    have b: "callsMade (loopEvents E c i nV ps batches (k + CONCURRENT_LIMIT)
          (cnt + length (concat ?chunk))) =
        map (\<lambda>b. (b, batches ! b, map (\<lambda>s. text_sub (ps ! s)) (batches ! b)))
          [k + CONCURRENT_LIMIT..<length batches]"
      using True by (rule 1)
    have "k \<le> ?m" "?m \<le> length batches" using True by simp_all
    then have split: "[k..<length batches] = [k..<?m] @ [?m..<length batches]"
      by (metis le_Suc_ex upt_add_eq_append)
    have tail: "[?m..<length batches] = [k + CONCURRENT_LIMIT..<length batches]"
      by (simp add: min_def)
    show ?thesis
      by (subst loopEvents.simps) (simp add: True a b split tail del: upt.simps)
  next
    case False
    then show ?thesis by (subst loopEvents.simps) simp
  qed
qed

lemma validSubtitles_distinct: "distinct (validSubtitles ps)"
  by (simp add: validSubtitles_def)

lemma validSubtitles_set:
  "r \<in> set (validSubtitles ps) \<longleftrightarrow> r < length ps \<and> isValid (ps ! r)"
  by (auto simp: validSubtitles_def)

lemma validSubtitles_sorted: "sorted_wrt (<) (validSubtitles ps)"
  by (simp add: validSubtitles_def sorted_wrt_filter)

lemma batches_concat: "concat (batchLoop (validSubtitles ps) 0) = validSubtitles ps"
  by (simp add: batchLoop_concat)

lemma removeSDH_step_length [simp]: "length (removeSDH_step c parsed) = length parsed"
  by (simp add: removeSDH_step_def)

lemma translateChunks_eq:
  "translateChunks E c i parsed0 =
     windowLoop E c i (length (validSubtitles (removeSDH_step c parsed0)))
       (batchLoop (validSubtitles (removeSDH_step c parsed0)) 0) 0
       \<lparr>entries = removeSDH_step c parsed0, completedSubtitlesCount = 0, emitted = []\<rparr>"
  by (simp add: translateChunks_def Let_def)

lemma translateChunks_length:
  "length (entries (translateChunks E c i parsed0)) = length parsed0"
  by (simp add: translateChunks_eq windowLoop_length)

lemma translateChunks_completed:
  "completedSubtitlesCount (translateChunks E c i parsed0) =
     length (validSubtitles (removeSDH_step c parsed0))"
  by (simp add: translateChunks_eq windowLoop_completed batches_concat)

lemma translateChunks_frame:
  "r \<notin> set (validSubtitles (removeSDH_step c parsed0)) \<Longrightarrow>
   entries (translateChunks E c i parsed0) ! r = removeSDH_step c parsed0 ! r"
  by (simp add: translateChunks_eq windowLoop_frame batches_concat del: set_concat)

lemma translateChunks_effect:
  assumes "b < length (batchLoop (validSubtitles (removeSDH_step c parsed0)) 0)"
    "q < length (batchLoop (validSubtitles (removeSDH_step c parsed0)) 0 ! b)"
  shows "entries (translateChunks E c i parsed0) !
           (batchLoop (validSubtitles (removeSDH_step c parsed0)) 0 ! b ! q) =
         settledEntry
           (answerOf E c i (removeSDH_step c parsed0) b
              (batchLoop (validSubtitles (removeSDH_step c parsed0)) 0 ! b)) q
           (removeSDH_step c parsed0 !
              (batchLoop (validSubtitles (removeSDH_step c parsed0)) 0 ! b ! q))"
proof -
  let ?ps = "removeSDH_step c parsed0"
  let ?st = "\<lparr>entries = ?ps, completedSubtitlesCount = 0, emitted = []\<rparr>"
  have d: "distinct (concat (drop 0 (batchLoop (validSubtitles ?ps) 0)))"
    by (simp add: batches_concat validSubtitles_distinct)
  have r: "\<forall>r\<in>set (concat (drop 0 (batchLoop (validSubtitles ?ps) 0))). r < length (entries ?st)"
    by (simp add: batches_concat validSubtitles_set del: set_concat)
  from windowLoop_effect[OF d r _ assms, of E c i "length (validSubtitles ?ps)"]
  show ?thesis by (simp add: translateChunks_eq)
qed

lemma translateChunks_emitted:
  "emitted (translateChunks E c i parsed0) =
     loopEvents E c i (length (validSubtitles (removeSDH_step c parsed0)))
       (removeSDH_step c parsed0) (batchLoop (validSubtitles (removeSDH_step c parsed0)) 0) 0 0"
proof -
  let ?ps = "removeSDH_step c parsed0"
  let ?st = "\<lparr>entries = ?ps, completedSubtitlesCount = 0, emitted = []\<rparr>"
  have d: "distinct (concat (drop 0 (batchLoop (validSubtitles ?ps) 0)))"
    by (simp add: batches_concat validSubtitles_distinct)
  have t: "\<forall>r\<in>set (concat (drop 0 (batchLoop (validSubtitles ?ps) 0))).
      text_sub (entries ?st ! r) = text_sub (?ps ! r)"
    by simp
  from windowLoop_emitted[OF d t, of E c i "length (validSubtitles ?ps)"]
  show ?thesis by (simp add: translateChunks_eq)
qed

lemma translateChunks_calls:
  "callsMade (emitted (translateChunks E c i parsed0)) =
     map (\<lambda>b. (b, batchLoop (validSubtitles (removeSDH_step c parsed0)) 0 ! b,
               map (\<lambda>s. text_sub (removeSDH_step c parsed0 ! s))
                 (batchLoop (validSubtitles (removeSDH_step c parsed0)) 0 ! b)))
       [0..<length (batchLoop (validSubtitles (removeSDH_step c parsed0)) 0)]"
  by (simp only: translateChunks_emitted callsMade_loopEvents)

lemma batch_subset_valid:
  "b < length (batchLoop vs 0) \<Longrightarrow> set (batchLoop vs 0 ! b) \<subseteq> set vs"
proof -
  assume "b < length (batchLoop vs 0)"
  then have "batchLoop vs 0 ! b \<in> set (batchLoop vs 0)" by simp
  then have "set (batchLoop vs 0 ! b) \<subseteq> set (concat (batchLoop vs 0))" by auto
  then show ?thesis by (simp add: batchLoop_concat del: set_concat)
qed

lemma trim_Nil_iff: "trim s = [] \<longleftrightarrow> (\<forall>x\<in>set s. isWhiteSpace x)"
proof
  assume "trim s = []"
  then have "dropWhile isWhiteSpace (rev (dropWhile isWhiteSpace s)) = []"
    by (simp add: trim_def)
  then have "\<forall>x\<in>set (dropWhile isWhiteSpace s). isWhiteSpace x"
    by (simp add: dropWhile_eq_Nil_conv)
  then have "dropWhile isWhiteSpace s = []"
    by (metis hd_dropWhile list.set_sel(1))
  then show "\<forall>x\<in>set s. isWhiteSpace x"
    by (simp add: dropWhile_eq_Nil_conv)
next
  assume "\<forall>x\<in>set s. isWhiteSpace x"
  then show "trim s = []"
    by (auto simp: trim_def dest: set_dropWhileD)
qed

lemma whiteSpace_not_open: "isWhiteSpace x \<Longrightarrow> x \<noteq> LBRACKET \<and> x \<noteq> LPAREN"
  by (auto simp: isWhiteSpace_def LBRACKET_def LPAREN_def)

lemma replaceSDH_blank: "\<forall>x\<in>set t. isWhiteSpace x \<Longrightarrow> replaceSDH t = t"
  by (induction t) (auto dest: whiteSpace_not_open)

lemma removeSDH_entry_blank:
  "trim (text_sub p) = [] \<Longrightarrow> trim (text_sub (removeSDH_entry p)) = []"
proof -
  assume b: "trim (text_sub p) = []"
  then have "replaceSDH (text_sub p) = text_sub p"
    by (intro replaceSDH_blank) (simp add: trim_Nil_iff)
  with b have "text_sub (removeSDH_entry p) = []"
    by (simp add: removeSDH_entry_def)
  then show ?thesis by (simp add: trim_def)
qed

lemma removeSDH_entry_flags [simp]:
  "isHeader (removeSDH_entry p) = isHeader p" "isMalformed (removeSDH_entry p) = isMalformed p"
  by (simp_all add: removeSDH_entry_def)

lemma removeSDH_step_invalid:
  assumes "j < length parsed"
    "truthy (isHeader (parsed ! j)) \<or> truthy (isMalformed (parsed ! j)) \<or>
     trim (text_sub (parsed ! j)) = []"
  shows "\<not> isValid (removeSDH_step c parsed ! j)"
  using assms by (auto simp: removeSDH_step_def isValid_def removeSDH_entry_blank)

lemma inFlight_append [simp]: "inFlight (xs @ ys) F = inFlight ys (inFlight xs F)"
  by (induction xs F rule: inFlight.induct) simp_all

lemma inFlight_Cons: "inFlight (ev # evs) F = inFlight evs (inFlight [ev] F)"
  using inFlight_append[of "[ev]" evs F] by simp

lemma alwaysOneWindow_append:
  "alwaysOneWindow F (xs @ ys) \<longleftrightarrow> alwaysOneWindow F xs \<and> alwaysOneWindow (inFlight xs F) ys"
proof (induction xs arbitrary: F)
  case Nil
  then show ?case by (cases ys) simp_all
next
  case (Cons ev xs)
  have "alwaysOneWindow F ((ev # xs) @ ys) \<longleftrightarrow>
      oneWindow F \<and> alwaysOneWindow (inFlight [ev] F) (xs @ ys)"
    by simp
  also have "\<dots> \<longleftrightarrow> oneWindow F \<and> alwaysOneWindow (inFlight [ev] F) xs \<and>
      alwaysOneWindow (inFlight xs (inFlight [ev] F)) ys"
    by (simp only: Cons)
  also have "inFlight xs (inFlight [ev] F) = inFlight (ev # xs) F"
    by (rule inFlight_Cons[symmetric])
  finally show ?case by simp
qed

lemma alwaysOneWindow_take:
  "alwaysOneWindow F evs \<Longrightarrow> oneWindow (inFlight (take n evs) F)"
proof (induction evs arbitrary: F n)
  case Nil
  then show ?case by simp
next
  case (Cons ev evs)
  show ?case
  proof (cases n)
    case 0
    with Cons.prems show ?thesis by simp
  next
    case (Suc m)
    from Cons.prems have "alwaysOneWindow (inFlight [ev] F) evs" by simp
    then have "oneWindow (inFlight (take m evs) (inFlight [ev] F))" by (rule Cons.IH)
    also have "inFlight (take m evs) (inFlight [ev] F) = inFlight (ev # take m evs) F"
      by (rule inFlight_Cons[symmetric])
    finally show ?thesis by (simp only: Suc take_Suc_Cons)
  qed
qed

lemma window_oneWindow:
  assumes "F \<subseteq> {k..<k + CONCURRENT_LIMIT}" "k mod CONCURRENT_LIMIT = 0"
  shows "oneWindow F"
proof -
  have fin: "finite F" using assms(1) by (rule finite_subset) simp
  have "card F \<le> card {k..<k + CONCURRENT_LIMIT}"
    using assms(1) by (intro card_mono) simp_all
  then have card: "card F \<le> CONCURRENT_LIMIT" by simp
  have "x div CONCURRENT_LIMIT = k div CONCURRENT_LIMIT" if "x \<in> F" for x
  proof -
    from that assms(1) have x: "k \<le> x" "x < k + CONCURRENT_LIMIT" by auto
    from assms(2) obtain m where m: "k = CONCURRENT_LIMIT * m" by auto
    define d where "d = x - k"
    have "x = CONCURRENT_LIMIT * m + d" "d < CONCURRENT_LIMIT" using x m by (simp_all add: d_def)
    then show ?thesis by (simp add: m CONCURRENT_LIMIT_def)
  qed
  then show ?thesis using fin card by (simp add: oneWindow_def)
qed

lemma inFlight_callEvents:
  "inFlight (callEvents c i ps b chunk) F = F \<union> {b..<b + length chunk}"
proof (induction chunk arbitrary: b F)
  case Nil
  then show ?case by simp
next
  case (Cons bt rest)
  have "insert b F \<union> {Suc b..<Suc b + length rest} = F \<union> {b..<b + length (bt # rest)}"
    by auto
  then show ?case using Cons by (simp add: callEvent_def)
qed

lemma inFlight_settleEvents:
  "inFlight (settleEvents c i nV cnt cls) F = F - call_index ` set cls"
  by (induction cls arbitrary: cnt F) auto

lemma alwaysOneWindow_callEvents:
  assumes "F \<union> {b..<b + length chunk} \<subseteq> {k..<k + CONCURRENT_LIMIT}" "k mod CONCURRENT_LIMIT = 0"
  shows "alwaysOneWindow F (callEvents c i ps b chunk)"
  using assms(1)
proof (induction chunk arbitrary: b F)
  case Nil
  then show ?case using assms(2) by (simp add: window_oneWindow)
next
  case (Cons bt rest)
  have a: "oneWindow F" using Cons.prems assms(2) by (intro window_oneWindow) auto
  have "insert b F \<union> {Suc b..<Suc b + length rest} \<subseteq> {k..<k + CONCURRENT_LIMIT}"
    using Cons.prems by auto
  from Cons.IH[OF this] a show ?case by (simp add: callEvent_def)
qed

lemma alwaysOneWindow_settleEvents:
  assumes "F \<subseteq> {k..<k + CONCURRENT_LIMIT}" "k mod CONCURRENT_LIMIT = 0"
  shows "alwaysOneWindow F (settleEvents c i nV cnt cls)"
  using assms(1)
proof (induction cls arbitrary: cnt F)
  case Nil
  then show ?case using assms(2) by (simp add: window_oneWindow)
next
  case (Cons cl cls)
  have a: "oneWindow F" using Cons.prems assms(2) by (rule window_oneWindow)
  have sub: "F - {call_index cl} \<subseteq> {k..<k + CONCURRENT_LIMIT}" using Cons.prems by auto
  then have b: "oneWindow (F - {call_index cl})" using assms(2) by (rule window_oneWindow)
  from Cons.IH[OF sub] a b show ?case by simp
qed

lemma callsOf_indexes: "call_index ` set (callsOf E c i ps b chunk) = {b..<b + length chunk}"
proof (induction chunk arbitrary: b)
  case Nil
  then show ?case by simp
next
  case (Cons bt rest)
  have "insert b {Suc b..<Suc b + length rest} = {b..<b + length (bt # rest)}" by auto
  then show ?case using Cons by simp
qed

lemma loopEvents_windows:
  "k mod CONCURRENT_LIMIT = 0 \<Longrightarrow>
   alwaysOneWindow {} (loopEvents E c i nV ps batches k cnt) \<and>
   inFlight (loopEvents E c i nV ps batches k cnt) {} = {}"
proof (induction E c i nV ps batches k cnt rule: loopEvents.induct)
  case (1 E c i nV ps batches k cnt)
  show ?case
  proof (cases "k < length batches")
    case True
    let ?chunk = "slice batches k (k + CONCURRENT_LIMIT)"
    let ?calls = "callEvents c i ps k ?chunk"
    let ?settles = "settleEvents c i nV cnt
      (pickOrder (settleOrder E i k) (callsOf E c i ps k ?chunk))"
    let ?rest = "loopEvents E c i nV ps batches (k + CONCURRENT_LIMIT)
      (cnt + length (concat ?chunk))"
    have len: "length ?chunk \<le> CONCURRENT_LIMIT" by (simp add: slice_length)
    then have sub: "{k..<k + length ?chunk} \<subseteq> {k..<k + CONCURRENT_LIMIT}" by auto
    have a: "alwaysOneWindow {} ?calls"
      using sub "1.prems" by (intro alwaysOneWindow_callEvents) simp_all
    have f1: "inFlight ?calls {} = {k..<k + length ?chunk}"
      by (simp add: inFlight_callEvents)
    have b: "alwaysOneWindow {k..<k + length ?chunk} ?settles"
      using sub "1.prems" by (rule alwaysOneWindow_settleEvents)
    have f2: "inFlight ?settles {k..<k + length ?chunk} = {}"
      by (simp add: inFlight_settleEvents callsOf_indexes)
    have "(k + CONCURRENT_LIMIT) mod CONCURRENT_LIMIT = 0" using "1.prems" by simp
    from "1.IH"[OF True this]
    have c: "alwaysOneWindow {} ?rest" and f3: "inFlight ?rest {} = {}" by simp_all
    have eq: "loopEvents E c i nV ps batches k cnt = ?calls @ ?settles @ ?rest"
      using True by (subst loopEvents.simps) simp
    show ?thesis
      unfolding eq by (simp add: alwaysOneWindow_append a b c f1 f2 f3)
  next
    case False
    then have "loopEvents E c i nV ps batches k cnt = []"
      by (subst loopEvents.simps) simp
    then show ?thesis by (simp add: oneWindow_def)
  qed
qed

lemma reconstructCalls_append [simp]:
  "reconstructCalls (xs @ ys) = reconstructCalls xs @ reconstructCalls ys"
  by (induction xs rule: reconstructCalls.induct) simp_all

lemma reconstructCalls_callEvents [simp]: "reconstructCalls (callEvents c i ps b chunk) = []"
  by (induction chunk arbitrary: b) (simp_all add: callEvent_def)

lemma reconstructCalls_settleEvents [simp]: "reconstructCalls (settleEvents c i nV cnt cls) = []"
  by (induction cls arbitrary: cnt) simp_all

lemma reconstructCalls_loopEvents [simp]:
  "reconstructCalls (loopEvents E c i nV ps batches k cnt) = []"
proof (induction E c i nV ps batches k cnt rule: loopEvents.induct)
  case (1 E c i nV ps batches k cnt)
  show ?case
  proof (cases "k < length batches")
    case True
    with 1 show ?thesis by (subst loopEvents.simps) simp
  next
    case False
    then show ?thesis by (subst loopEvents.simps) simp
  qed
qed

lemma lazyUntil_found:
  "\<forall>x\<in>set body. x \<noteq> cl \<and> \<not> isLineTerminator x \<Longrightarrow> lazyUntil cl (body @ cl # s) = Some s"
  by (induction body) simp_all

lemma replaceSDH_annotationsOnly:
  "annotationsOnly t \<Longrightarrow> \<forall>x\<in>set (replaceSDH t). isWhiteSpace x"
proof (induction rule: annotationsOnly.induct)
  case nothing
  then show ?case by simp
next
  case (space x s)
  then show ?case by (auto dest: whiteSpace_not_open)
next
  case (bracket body s)
  then show ?case by (simp add: lazyUntil_found)
next
  case (paren body s)
  have "LPAREN \<noteq> LBRACKET" by (simp add: LPAREN_def LBRACKET_def)
  with paren show ?case by (simp add: lazyUntil_found)
qed

lemma removeSDH_entry_annotationsOnly:
  "annotationsOnly (text_sub p) \<Longrightarrow> text_sub (removeSDH_entry p) = []"
  using replaceSDH_annotationsOnly[of "text_sub p"]
  by (simp add: removeSDH_entry_def trim_Nil_iff)

lemma runningCounts_bounds:
  "\<forall>l\<in>set ls. 0 < l \<Longrightarrow> n \<in> set (runningCounts cnt ls) \<Longrightarrow> cnt < n \<and> n \<le> cnt + sum_list ls"
proof (induction ls arbitrary: cnt)
  case Nil
  then show ?case by simp
next
  case (Cons l ls)
  from Cons.prems(2) have "n = cnt + l \<or> n \<in> set (runningCounts (cnt + l) ls)" by simp
  then show ?case
  proof
    assume "n = cnt + l"
    with Cons.prems(1) show ?thesis by simp
  next
    assume "n \<in> set (runningCounts (cnt + l) ls)"
    with Cons.IH[of "cnt + l"] Cons.prems(1) have "cnt + l < n \<and> n \<le> cnt + l + sum_list ls"
      by simp
    then show ?thesis by simp
  qed
qed

lemma runningCounts_sorted:
  "\<forall>l\<in>set ls. 0 < l \<Longrightarrow> sorted_wrt (<) (runningCounts cnt ls)"
proof (induction ls arbitrary: cnt)
  case Nil
  then show ?case by simp
next
  case (Cons l ls)
  have "\<forall>n\<in>set (runningCounts (cnt + l) ls). cnt + l < n"
    using runningCounts_bounds[of ls _ "cnt + l"] Cons.prems by auto
  with Cons show ?case by simp
qed

lemma progressOf_callEvents [simp]: "progressOf (callEvents c i ps b chunk) = []"
  by (induction chunk arbitrary: b) (simp_all add: callEvent_def)

lemma progressOf_settleEvents:
  "progressOf (settleEvents c i nV cnt cls) =
     map (\<lambda>n. cappedProgress (length (files c)) i n nV)
       (runningCounts cnt (map (\<lambda>cl. length (call_batch cl)) cls))"
  by (induction cls arbitrary: cnt) simp_all

lemma sum_list_lengths: "sum_list (map (\<lambda>cl. length (f cl)) cls) = length (concat (map f cls))"
  by (induction cls) simp_all

lemma loopEvents_progress:
  assumes "\<forall>bt\<in>set batches. bt \<noteq> []"
  shows "\<exists>cs. progressOf (loopEvents E c i nV ps batches k cnt) =
                map (\<lambda>n. cappedProgress (length (files c)) i n nV) cs \<and>
              sorted_wrt (<) cs \<and>
              (\<forall>n\<in>set cs. cnt < n \<and> n \<le> cnt + length (concat (drop k batches)))"
  using assms
proof (induction E c i nV ps batches k cnt rule: loopEvents.induct)
  case (1 E c i nV ps batches k cnt)
  show ?case
  proof (cases "k < length batches")
    case True
    let ?chunk = "slice batches k (k + CONCURRENT_LIMIT)"
    let ?cls = "pickOrder (settleOrder E i k) (callsOf E c i ps k ?chunk)"
    let ?ls = "map (\<lambda>cl. length (call_batch cl)) ?cls"
    let ?cs1 = "runningCounts cnt ?ls"
    let ?cnt = "cnt + length (concat ?chunk)"
    from "1.IH"[OF True "1.prems"] obtain cs2 where
      p2: "progressOf (loopEvents E c i nV ps batches (k + CONCURRENT_LIMIT) ?cnt) =
             map (\<lambda>n. cappedProgress (length (files c)) i n nV) cs2"
      and s2: "sorted_wrt (<) cs2"
      and b2: "\<forall>n\<in>set cs2. ?cnt < n \<and>
                 n \<le> ?cnt + length (concat (drop (k + CONCURRENT_LIMIT) batches))"
      by blast
    have "set ?chunk \<subseteq> set batches"
      by (auto simp: slice_def dest!: in_set_takeD in_set_dropD)
    then have "\<forall>cl\<in>set ?cls. call_batch cl \<noteq> []"
      using "1.prems" callsOf_batches[of E c i ps k ?chunk]
      by (metis (no_types, lifting) image_eqI list.set_map pickOrder_set subsetD)
    then have pos: "\<forall>l\<in>set ?ls. 0 < l" by auto
    have sum: "sum_list ?ls = length (concat ?chunk)"
      by (simp add: sum_list_lengths pickOrder_concat_length)
    have len: "length (concat (drop k batches)) =
        length (concat ?chunk) + length (concat (drop (k + CONCURRENT_LIMIT) batches))"
      by (subst concat_drop_window) simp
    have b1: "\<forall>n\<in>set ?cs1. cnt < n \<and> n \<le> ?cnt"
      using runningCounts_bounds[OF pos, of _ cnt] sum by auto
    have s1: "sorted_wrt (<) ?cs1" using pos by (rule runningCounts_sorted)
    have "progressOf (loopEvents E c i nV ps batches k cnt) =
        map (\<lambda>n. cappedProgress (length (files c)) i n nV) (?cs1 @ cs2)"
      using True by (subst loopEvents.simps) (simp add: progressOf_settleEvents p2)
    moreover have "sorted_wrt (<) (?cs1 @ cs2)"
      using s1 s2 b1 b2 by (fastforce simp: sorted_wrt_append)
    moreover have "\<forall>n\<in>set (?cs1 @ cs2). cnt < n \<and> n \<le> cnt + length (concat (drop k batches))"
      using b1 b2 len by fastforce
    ultimately show ?thesis by blast
  next
    case False
    then have "loopEvents E c i nV ps batches k cnt = []" by (subst loopEvents.simps) simp
    then show ?thesis by simp
  qed
qed

lemma translateChunks_progress:
  "\<exists>cs. progressOf (emitted (translateChunks E c i parsed)) =
          map (\<lambda>n. cappedProgress (length (files c)) i n
                     (length (validSubtitles (removeSDH_step c parsed)))) cs \<and>
        sorted_wrt (<) cs \<and>
        (\<forall>n\<in>set cs. 0 < n \<and> n \<le> length (validSubtitles (removeSDH_step c parsed)))"
proof -
  let ?valid = "validSubtitles (removeSDH_step c parsed)"
  have ne: "\<forall>bt\<in>set (batchLoop ?valid 0). bt \<noteq> []" by (auto dest: batchLoop_sizes)
  from loopEvents_progress[OF ne, of E c i "length ?valid" "removeSDH_step c parsed" 0 0]
  show ?thesis by (simp add: translateChunks_emitted batchLoop_concat)
qed

lemma translateFile_progress:
  "\<exists>cs tot. progressOf (snd (translateFile E c i fileItem)) =
          map (\<lambda>n. cappedProgress (length (files c)) i n tot) cs \<and>
        sorted_wrt (<) cs \<and> (\<forall>n\<in>set cs. 0 < n \<and> n \<le> tot)"
proof (cases "readFileAsText E (file_obj fileItem)")
  case (Inl e)
  then have "progressOf (snd (translateFile E c i fileItem)) = []"
    by (simp add: translateFile_def)
  then show ?thesis by simp
next
  case (Inr tx)
  show ?thesis
  proof (cases "parseSubtitles E tx")
    case (Inl e)
    with Inr have "progressOf (snd (translateFile E c i fileItem)) = []"
      by (simp add: translateFile_def)
    then show ?thesis by simp
  next
    case parsed: (Inr parsed)
    have "progressOf (snd (translateFile E c i fileItem)) =
        progressOf (emitted (translateChunks E c i parsed))"
      using Inr parsed by (simp add: translateFile_def Let_def split: sum.splits)
    with translateChunks_progress[of E c i parsed] show ?thesis by metis
  qed
qed

lemma cappedProgress_mono:
  "n \<le> n' \<Longrightarrow> cappedProgress N i n tot \<le> cappedProgress N i n' tot"
proof -
  assume "n \<le> n'"
  then have "(of_nat n :: rat) \<le> of_nat n'" by simp
  then have "(of_nat n :: rat) / of_nat tot \<le> of_nat n' / of_nat tot"
    by (rule divide_right_mono) simp
  then have "(of_nat i :: rat) + of_nat n / of_nat tot \<le> of_nat i + of_nat n' / of_nat tot"
    by (rule add_left_mono)
  then have "(of_nat i + of_nat n / of_nat tot) / of_nat N \<le>
      (of_nat i + of_nat n' / of_nat tot) / (of_nat N :: rat)"
    by (rule divide_right_mono) simp
  then have "((of_nat i + of_nat n / of_nat tot) / of_nat N) * 100 \<le>
      ((of_nat i + of_nat n' / of_nat tot) / of_nat N) * (100 :: rat)"
    by (rule mult_right_mono) simp
  then show ?thesis unfolding cappedProgress_def by (rule min.mono) simp
qed

lemma cappedProgress_range: "0 \<le> cappedProgress N i n tot \<and> cappedProgress N i n tot \<le> 99"
  by (simp add: cappedProgress_def)

lemma fileFloor_mono: "j \<le> j' \<Longrightarrow> fileFloor N j \<le> fileFloor N j'"
proof -
  assume "j \<le> j'"
  then have "(of_nat j :: rat) / of_nat N * 100 \<le> of_nat j' / of_nat N * 100"
    by (intro mult_right_mono divide_right_mono) simp_all
  then show ?thesis unfolding fileFloor_def by (rule min.mono) simp
qed

lemma cappedProgress_between:
  assumes "0 < n" "n \<le> tot"
  shows "fileFloor N i \<le> cappedProgress N i n tot \<and>
         cappedProgress N i n tot \<le> fileFloor N (Suc i)"
proof -
  have t: "0 < tot" using assms by simp
  have f0: "(0 :: rat) \<le> of_nat n / of_nat tot" by simp
  have f1: "(of_nat n :: rat) / of_nat tot \<le> 1" using assms t by simp
  have lo: "(of_nat i :: rat) / of_nat N * 100 \<le>
      ((of_nat i + of_nat n / of_nat tot) / of_nat N) * 100"
    using f0 by (intro mult_right_mono divide_right_mono) simp_all
  have "(of_nat i :: rat) + of_nat n / of_nat tot \<le> of_nat (Suc i)" using f1 by simp
  then have hi: "((of_nat i + of_nat n / of_nat tot) / of_nat N) * 100 \<le>
      (of_nat (Suc i) :: rat) / of_nat N * 100"
    by (intro mult_right_mono divide_right_mono) simp_all
  show ?thesis
    unfolding cappedProgress_def fileFloor_def using lo hi by (auto intro: min.mono)
qed

lemma sorted_blocks:
  fixes g :: "nat \<Rightarrow> rat list"
  assumes "\<And>j. sorted (g j)" "\<And>j v. v \<in> set (g j) \<Longrightarrow> fileFloor N j \<le> v \<and> v \<le> fileFloor N (Suc j)"
  shows "sorted (concat (map g [0..<n])) \<and>
         (\<forall>v\<in>set (concat (map g [0..<n])). fileFloor N 0 \<le> v \<and> v \<le> fileFloor N n)"
proof (induction n)
  case 0
  then show ?case by simp
next
  case (Suc n)
  let ?xs = "concat (map g [0..<n])"
  from Suc have sx: "sorted ?xs" and bx: "\<forall>v\<in>set ?xs. fileFloor N 0 \<le> v \<and> v \<le> fileFloor N n"
    by simp_all
  have eq: "concat (map g [0..<Suc n]) = ?xs @ g n" by simp
  have up: "fileFloor N n \<le> fileFloor N (Suc n)" by (rule fileFloor_mono) simp
  have dn: "fileFloor N 0 \<le> fileFloor N n" by (rule fileFloor_mono) simp
  have "sorted (?xs @ g n)"
    unfolding sorted_append
  proof (intro conjI ballI)
    show "sorted ?xs" by (rule sx)
    show "sorted (g n)" by (rule assms(1))
  next
    fix x y assume "x \<in> set ?xs" "y \<in> set (g n)"
    then have "x \<le> fileFloor N n" "fileFloor N n \<le> y" using bx assms(2) by auto
    then show "x \<le> y" by simp
  qed
  moreover have "\<forall>v\<in>set (?xs @ g n). fileFloor N 0 \<le> v \<and> v \<le> fileFloor N (Suc n)"
  proof
    fix v assume "v \<in> set (?xs @ g n)"
    then consider "v \<in> set ?xs" | "v \<in> set (g n)" by auto
    then show "fileFloor N 0 \<le> v \<and> v \<le> fileFloor N (Suc n)"
    proof cases
      case 1
      with bx up show ?thesis by fastforce
    next
      case 2
      with assms(2)[of v n] dn show ?thesis by fastforce
    qed
  qed
  ultimately show ?case unfolding eq by simp
qed

lemma translateFile_progress_sorted: "sorted (progressOf (snd (translateFile E c i fileItem)))"
proof -
  obtain cs tot where
    eq: "progressOf (snd (translateFile E c i fileItem)) =
           map (\<lambda>n. cappedProgress (length (files c)) i n tot) cs"
    and s: "sorted_wrt (<) cs"
    using translateFile_progress[of E c i fileItem] by blast
  have "sorted_wrt (\<lambda>x y. cappedProgress (length (files c)) i x tot \<le>
                           cappedProgress (length (files c)) i y tot) cs"
    using s by (rule sorted_wrt_mono_rel[rotated]) (simp add: cappedProgress_mono)
  then show ?thesis by (simp add: eq sorted_wrt_map)
qed

lemma translateFile_progress_between:
  "v \<in> set (progressOf (snd (translateFile E c i fileItem))) \<Longrightarrow>
   fileFloor (length (files c)) i \<le> v \<and> v \<le> fileFloor (length (files c)) (Suc i)"
proof -
  assume v: "v \<in> set (progressOf (snd (translateFile E c i fileItem)))"
  obtain cs tot where
    eq: "progressOf (snd (translateFile E c i fileItem)) =
           map (\<lambda>n. cappedProgress (length (files c)) i n tot) cs"
    and b: "\<forall>n\<in>set cs. 0 < n \<and> n \<le> tot"
    using translateFile_progress[of E c i fileItem] by blast
  from v eq obtain n where "n \<in> set cs" "v = cappedProgress (length (files c)) i n tot"
    by auto
  with b show ?thesis by (simp add: cappedProgress_between)
qed

lemma progressOf_concat:
  "progressOf (concat xss) = concat (map progressOf xss)"
  by (induction xss) simp_all

lemma newHistory_file:
  "file_obj f' = file_obj f \<Longrightarrow> newHistory E c i f' = newHistory E c i f"
  by (simp add: newHistory_def)

lemma stepThrows_iff:
  "stepThrows E c i fileItem e \<longleftrightarrow> fst (translateFile E c i fileItem) = Inl e"
proof
  assume "stepThrows E c i fileItem e"
  then show "fst (translateFile E c i fileItem) = Inl e"
    by cases (simp_all add: translateFile_def Let_def)
next
  assume h: "fst (translateFile E c i fileItem) = Inl e"
  show "stepThrows E c i fileItem e"
  proof (cases "readFileAsText E (file_obj fileItem)")
    case (Inl x)
    with h have "x = e" by (simp add: translateFile_def)
    with Inl show ?thesis by (simp add: stepThrows.read)
  next
    case (Inr tx)
    show ?thesis
    proof (cases "parseSubtitles E tx")
      case (Inl x)
      with Inr h have "x = e" by (simp add: translateFile_def)
      with Inr Inl show ?thesis by (simp add: stepThrows.parse)
    next
      case parsed: (Inr parsed)
      from h Inr parsed
      have "reconstructSubtitles E (entries (translateChunks E c i parsed))
              (name (file_obj fileItem)) = Inl e"
        by (simp add: translateFile_def Let_def split: sum.splits)
      with Inr parsed show ?thesis by (rule stepThrows.reconstruct)
    qed
  qed
qed

lemma catchError_files_Thrown:
  "files (stateOf (catchError fileItem (Thrown v) s)) =
     map (\<lambda>f. if id_file f = id_file fileItem then f\<lparr>status := Error, error := v\<rparr> else f)
       (files s)"
  by (simp add: catchError_def setFiles_def)

lemma catchError_files_Nullish: "files (stateOf (catchError fileItem Nullish s)) = files s"
  by (simp add: catchError_def)

lemma catchError_trace: "trace (stateOf (catchError fileItem e s)) = trace s"
  by (cases e) (simp_all add: catchError_def setFiles_def)

lemma catchError_raised:
  "raised (catchError fileItem e s) \<longleftrightarrow>
     e = Nullish \<and> id_file fileItem \<in> id_file ` set (files s)"
proof (cases e)
  case Nullish
  have "(\<exists>f\<in>set (files s). id_file f = id_file fileItem) \<longleftrightarrow>
        id_file fileItem \<in> id_file ` set (files s)"
    by (metis (mono_tags, lifting) image_iff)
  then show ?thesis unfolding Nullish by (simp add: catchError_def list_ex_iff)
next
  case (Thrown v)
  show ?thesis unfolding Thrown by (simp add: catchError_def)
qed

lemma processFile_files:
  "files (stateOf (processFile E c i fileItem s)) =
     map (\<lambda>f. if id_file f = id_file fileItem then fileOutcome E c i fileItem f else f) (files s)"
proof (cases "translateFile E c i fileItem")
  case (Pair r evs)
  show ?thesis
  proof (cases r)
    case (Inl e)
    have "processFile E c i fileItem s =
        catchError fileItem e
          ((setFiles (\<lambda>f. if id_file f = id_file fileItem then f\<lparr>status := Processing\<rparr> else f)
             (s\<lparr>currentProcessingFile := name (file_obj fileItem)\<rparr>))
           \<lparr>progress := lastProgress evs (progress s), trace := trace s @ evs\<rparr>)"
      using Pair Inl by (simp add: processFile_def Let_def setFiles_def)
    moreover have "fileOutcome E c i fileItem =
        (\<lambda>f. case e of Thrown v \<Rightarrow> f\<lparr>status := Error, error := v\<rparr>
                      | Nullish \<Rightarrow> f\<lparr>status := Processing\<rparr>)"
      using Pair Inl by (simp add: fileOutcome_def fun_eq_iff)
    ultimately show ?thesis
      by (cases e)
         (simp_all add: catchError_files_Thrown catchError_files_Nullish setFiles_def comp_def)
  next
    case (Inr p)
    obtain tx finalText where p: "p = (tx, finalText)" by (cases p)
    let ?u = "fileItem\<lparr>status := Done, originalText := tx,
                    translatedText := Some finalText, wordCount := splitCount finalText\<rparr>"
    have nh: "newHistory E c i ?u = newHistory E c i fileItem"
      by (rule newHistory_file) simp
    let ?s3 = "((setFiles (\<lambda>f. if id_file f = id_file fileItem then ?u else f)
             ((setFiles (\<lambda>f. if id_file f = id_file fileItem then f\<lparr>status := Processing\<rparr> else f)
             (s\<lparr>currentProcessingFile := name (file_obj fileItem)\<rparr>))
           \<lparr>progress := lastProgress evs (progress s), trace := trace s @ evs\<rparr>)))
           \<lparr>history := newHistory E c i fileItem\<rparr>"
    have f3: "files ?s3 = map (\<lambda>f. if id_file f = id_file fileItem then ?u else f) (files s)"
      by (simp add: setFiles_def comp_def)
    show ?thesis
    proof (cases "localStorage_setItem E (newHistory E c i fileItem)")
      case None
      have "processFile E c i fileItem s = Normal ?s3"
        using Pair Inr p nh None
        by (simp add: processFile_def Let_def setFiles_def addToHistory_def)
      moreover have "fileOutcome E c i fileItem = (\<lambda>f. ?u)"
        using Pair Inr p None by (simp add: fileOutcome_def fun_eq_iff)
      ultimately show ?thesis by (simp add: f3)
    next
      case (Some e)
      have "processFile E c i fileItem s = catchError fileItem e ?s3"
        using Pair Inr p nh Some
        by (simp add: processFile_def Let_def setFiles_def addToHistory_def)
      moreover have "fileOutcome E c i fileItem =
          (\<lambda>f. case e of Thrown v \<Rightarrow> ?u\<lparr>status := Error, error := v\<rparr> | Nullish \<Rightarrow> ?u)"
        using Pair Inr p Some by (cases e) (simp_all add: fileOutcome_def fun_eq_iff)
      ultimately show ?thesis
        by (cases e)
           (simp_all add: catchError_files_Thrown catchError_files_Nullish f3 comp_def)
    qed
  qed
qed

lemma processFile_trace:
  "trace (stateOf (processFile E c i fileItem s)) = trace s @ snd (translateFile E c i fileItem)"
proof (cases "translateFile E c i fileItem")
  case (Pair r evs)
  show ?thesis
  proof (cases r)
    case (Inl e)
    with Pair show ?thesis
      by (simp add: processFile_def Let_def setFiles_def catchError_trace)
  next
    case (Inr p)
    obtain tx finalText where p: "p = (tx, finalText)" by (cases p)
    show ?thesis
    proof (cases "localStorage_setItem E (newHistory E c i
        (fileItem\<lparr>status := Done, originalText := tx,
                    translatedText := Some finalText, wordCount := splitCount finalText\<rparr>))")
      case None
      with Pair Inr p show ?thesis
        by (simp add: processFile_def Let_def setFiles_def addToHistory_def)
    next
      case (Some e)
      with Pair Inr p show ?thesis
        by (simp add: processFile_def Let_def setFiles_def addToHistory_def catchError_trace)
    qed
  qed
qed

lemma ids_map:
  "(\<And>f. id_file (g f) = id_file f) \<Longrightarrow> id_file ` set (map g fs) = id_file ` set fs"
  by (induction fs) simp_all

lemma processFile_raised:
  "raised (processFile E c i fileItem s) \<longleftrightarrow>
     caught E c i fileItem = Some Nullish \<and> id_file fileItem \<in> id_file ` set (files s)"
proof (cases "translateFile E c i fileItem")
  case (Pair r evs)
  have i1: "id_file ` set (map (\<lambda>f. if id_file f = id_file fileItem
                                   then f\<lparr>status := Processing\<rparr> else f) (files s)) =
            id_file ` set (files s)"
    by (rule ids_map) simp
  show ?thesis
  proof (cases r)
    case (Inl e)
    with Pair i1 show ?thesis
      by (simp add: processFile_def Let_def setFiles_def catchError_raised caught_def)
  next
    case (Inr p)
    obtain tx finalText where p: "p = (tx, finalText)" by (cases p)
    let ?u = "fileItem\<lparr>status := Done, originalText := tx,
                    translatedText := Some finalText, wordCount := splitCount finalText\<rparr>"
    have nh: "newHistory E c i ?u = newHistory E c i fileItem"
      by (rule newHistory_file) simp
    have i2: "id_file ` set (map (\<lambda>f. if id_file f = id_file fileItem then ?u else f)
                (map (\<lambda>f. if id_file f = id_file fileItem
                                   then f\<lparr>status := Processing\<rparr> else f) (files s))) =
            id_file ` set (files s)"
    proof -
      have "id_file ` set (map (\<lambda>f. if id_file f = id_file fileItem then ?u else f)
                (map (\<lambda>f. if id_file f = id_file fileItem
                                   then f\<lparr>status := Processing\<rparr> else f) (files s))) =
            id_file ` set (map (\<lambda>f. if id_file f = id_file fileItem
                                   then f\<lparr>status := Processing\<rparr> else f) (files s))"
        by (rule ids_map) simp
      with i1 show ?thesis by (simp only:)
    qed
    show ?thesis
    proof (cases "localStorage_setItem E (newHistory E c i fileItem)")
      case None
      with Pair Inr p nh show ?thesis
        by (simp add: processFile_def Let_def setFiles_def addToHistory_def caught_def)
    next
      case (Some e)
      with Pair Inr p nh i2 show ?thesis
        by (simp add: processFile_def Let_def setFiles_def addToHistory_def caught_def
              catchError_raised)
    qed
  qed
qed

lemma fileOutcome_terminal:
  "fst (translateFile E c i fileItem) \<noteq> Inl Nullish \<Longrightarrow> terminal (fileOutcome E c i fileItem f)"
  by (simp add: fileOutcome_def terminal_def split: sum.splits option.splits prod.splits exn.splits)

lemma fileOutcome_id:
  "id_file f = id_file fileItem \<Longrightarrow> id_file (fileOutcome E c i fileItem f) = id_file f"
  by (simp add: fileOutcome_def split: sum.splits option.splits prod.splits exn.splits)

lemma processFile_ids:
  "map id_file (files (stateOf (processFile E c i fileItem s))) = map id_file (files s)"
  by (simp add: processFile_files comp_def fileOutcome_id cong: map_cong)

lemma stopsAt_throws:
  "stopsAt E c j \<Longrightarrow>
   stepThrows E c j (files c ! j) Nullish \<or>
   localStorage_setItem E (newHistory E c j (files c ! j)) = Some Nullish"
  by (auto simp: stopsAt_def caught_def stepThrows_iff split: sum.splits)

lemma not_stopsAt_terminal:
  "\<not> stopsAt E c j \<Longrightarrow> terminal (fileOutcome E c j (files c ! j) f)"
  by (rule fileOutcome_terminal) (auto simp: stopsAt_def caught_def)

lemma loopEnd_stop: "i < length (files c) \<Longrightarrow> stopsAt E c i \<Longrightarrow> loopEnd E c i = Suc i"
  by (simp add: loopEnd_def upt_conv_Cons)

lemma loopEnd_next:
  "i < length (files c) \<Longrightarrow> \<not> stopsAt E c i \<Longrightarrow> loopEnd E c i = loopEnd E c (Suc i)"
  by (simp add: loopEnd_def upt_conv_Cons)

lemma loopEnd_past: "\<not> i < length (files c) \<Longrightarrow> loopEnd E c i = length (files c)"
  by (simp add: loopEnd_def)

lemma completes_stop: "i < length (files c) \<Longrightarrow> stopsAt E c i \<Longrightarrow> \<not> completes E c i"
  by (simp add: completes_def upt_conv_Cons)

lemma completes_next:
  "i < length (files c) \<Longrightarrow> \<not> stopsAt E c i \<Longrightarrow> completes E c i = completes E c (Suc i)"
  by (simp add: completes_def upt_conv_Cons)

lemma completes_past: "\<not> i < length (files c) \<Longrightarrow> completes E c i"
  by (simp add: completes_def)

lemma loopEnd_bounds:
  "i \<le> length (files c) \<Longrightarrow> i \<le> loopEnd E c i \<and> loopEnd E c i \<le> length (files c)"
proof (induction "length (files c) - i" arbitrary: i)
  case 0
  then show ?case by (simp add: loopEnd_past)
next
  case (Suc d)
  then have lt: "i < length (files c)" by simp
  show ?case
  proof (cases "stopsAt E c i")
    case True
    with lt show ?thesis by (simp add: loopEnd_stop)
  next
    case False
    from Suc(1)[of "Suc i"] Suc(2) lt
    have "Suc i \<le> loopEnd E c (Suc i) \<and> loopEnd E c (Suc i) \<le> length (files c)" by simp
    with lt False show ?thesis by (simp add: loopEnd_next)
  qed
qed

lemma completes_loopEnd: "completes E c i \<Longrightarrow> loopEnd E c i = length (files c)"
proof -
  assume "completes E c i"
  then have "find (stopsAt E c) [i..<length (files c)] = None"
    unfolding completes_def list_ex_iff find_None_iff by blast
  then show ?thesis by (simp add: loopEnd_def)
qed

lemma completes_not_stopsAt:
  "completes E c i \<Longrightarrow> i \<le> j \<Longrightarrow> j < length (files c) \<Longrightarrow> \<not> stopsAt E c j"
  by (simp add: completes_def list_ex_iff)

lemma loopEnd_not_stopsAt:
  "i \<le> j \<Longrightarrow> Suc j < loopEnd E c i \<Longrightarrow> \<not> stopsAt E c j"
proof (induction "length (files c) - i" arbitrary: i)
  case 0
  then have "loopEnd E c i = length (files c)" by (simp add: loopEnd_past)
  with 0 show ?case by simp
next
  case (Suc d)
  then have lt: "i < length (files c)" by simp
  show ?case
  proof (cases "stopsAt E c i")
    case True
    with lt Suc.prems show ?thesis by (simp add: loopEnd_stop)
  next
    case False
    show ?thesis
    proof (cases "j = i")
      case True
      with False show ?thesis by simp
    next
      case ne: False
      with Suc.prems have "Suc i \<le> j" by simp
      moreover have "Suc j < loopEnd E c (Suc i)"
        using Suc.prems lt False by (simp add: loopEnd_next)
      ultimately show ?thesis using Suc(1)[of "Suc i"] Suc(2) by simp
    qed
  qed
qed

lemma raised_iff: "raised r \<longleftrightarrow> (\<exists>s. r = Raised s)"
  by (cases r) simp_all

lemma not_raised_iff: "\<not> raised r \<longleftrightarrow> r = Normal (stateOf r)"
  by (cases r) simp_all

lemma fileLoop_raise:
  "i < length (files c) \<Longrightarrow> raised (processFile E c i (files c ! i) s) \<Longrightarrow>
   fileLoop E c i s = processFile E c i (files c ! i) s"
  by (subst fileLoop.simps) (auto simp: raised_iff)

lemma fileLoop_step:
  "i < length (files c) \<Longrightarrow> \<not> raised (processFile E c i (files c ! i) s) \<Longrightarrow>
   fileLoop E c i s = fileLoop E c (Suc i) (stateOf (processFile E c i (files c ! i) s))"
  by (subst fileLoop.simps) (cases "processFile E c i (files c ! i) s", simp_all)

lemma fileLoop_stop: "\<not> i < length (files c) \<Longrightarrow> fileLoop E c i s = Normal s"
  by (subst fileLoop.simps) simp

lemma processFile_raised_loop:
  assumes "map id_file (files s) = map id_file (files c)" "i < length (files c)"
  shows "raised (processFile E c i (files c ! i) s) \<longleftrightarrow> stopsAt E c i"
proof -
  have "id_file ` set (files s) = id_file ` set (files c)"
    using assms(1) by (metis list.set_map)
  moreover have "files c ! i \<in> set (files c)" using assms(2) by simp
  ultimately have "id_file (files c ! i) \<in> id_file ` set (files s)" by blast
  then show ?thesis by (simp add: processFile_raised stopsAt_def)
qed

lemma fileLoop_run:
  assumes "map id_file (files s) = map id_file (files c)"
  shows "(raised (fileLoop E c i s) \<longleftrightarrow> \<not> completes E c i) \<and>
         trace (stateOf (fileLoop E c i s)) =
           trace s @ concat (map (\<lambda>j. snd (translateFile E c j (files c ! j)))
                              [i..<loopEnd E c i]) \<and>
         map id_file (files (stateOf (fileLoop E c i s))) = map id_file (files c)"
  using assms
proof (induction E c i s rule: fileLoop.induct)
  case (1 E c i s)
  note ids = "1.prems"
  show ?case
  proof (cases "i < length (files c)")
    case True
    let ?r = "processFile E c i (files c ! i) s"
    have r: "raised ?r \<longleftrightarrow> stopsAt E c i" using ids True by (rule processFile_raised_loop)
    have ids': "map id_file (files (stateOf ?r)) = map id_file (files c)"
      using ids by (simp add: processFile_ids)
    show ?thesis
    proof (cases "stopsAt E c i")
      case stop: True
      then have "fileLoop E c i s = ?r" using True r by (simp add: fileLoop_raise)
      moreover have "[i..<Suc i] = [i]" by simp
      ultimately show ?thesis
        using True stop r ids'
        by (simp add: completes_stop loopEnd_stop processFile_trace)
    next
      case go: False
      then have nr: "\<not> raised ?r" using r by simp
      then have n: "?r = Normal (stateOf ?r)" by (simp add: not_raised_iff)
      have eq: "fileLoop E c i s = fileLoop E c (Suc i) (stateOf ?r)"
        using True nr by (rule fileLoop_step)
      note IH = "1.IH"[OF True n ids']
      have le: "Suc i \<le> loopEnd E c (Suc i)"
        using loopEnd_bounds[of "Suc i" c E] True by simp
      then have "i < loopEnd E c (Suc i)" by simp
      then have up: "[i..<loopEnd E c (Suc i)] = i # [Suc i..<loopEnd E c (Suc i)]"
        by (rule upt_conv_Cons)
      show ?thesis
        using IH True go
        by (simp add: eq completes_next loopEnd_next processFile_trace up)
    qed
  next
    case False
    then show ?thesis using ids by (simp add: fileLoop_stop completes_past loopEnd_past)
  qed
qed

lemma fileLoop_terminal:
  assumes "map id_file (files s) = map id_file (files c)"
    and "\<forall>f\<in>set (files s). id_file f \<in> id_file ` set (take i (files c)) \<longrightarrow> terminal f"
    and "completes E c i"
  shows "\<forall>f\<in>set (files (stateOf (fileLoop E c i s))).
           id_file f \<in> id_file ` set (files c) \<longrightarrow> terminal f"
  using assms
proof (induction E c i s rule: fileLoop.induct)
  case (1 E c i s)
  note ids = "1.prems"(1) and tm = "1.prems"(2) and cp = "1.prems"(3)
  show ?case
  proof (cases "i < length (files c)")
    case True
    let ?r = "processFile E c i (files c ! i) s"
    let ?s = "stateOf ?r"
    have go: "\<not> stopsAt E c i" using cp True by (simp add: completes_not_stopsAt)
    then have nr: "\<not> raised ?r" using processFile_raised_loop[OF ids True] by simp
    then have n: "?r = Normal ?s" by (simp add: not_raised_iff)
    have eq: "fileLoop E c i s = fileLoop E c (Suc i) ?s"
      using True nr by (rule fileLoop_step)
    have ids': "map id_file (files ?s) = map id_file (files c)"
      using ids by (simp add: processFile_ids)
    have cp': "completes E c (Suc i)" using cp True go by (simp add: completes_next)
    have "\<forall>f\<in>set (files ?s). id_file f \<in> id_file ` set (take (Suc i) (files c)) \<longrightarrow> terminal f"
    proof (intro ballI impI)
      fix f assume f: "f \<in> set (files ?s)"
        and idf: "id_file f \<in> id_file ` set (take (Suc i) (files c))"
      from f obtain g where g: "g \<in> set (files s)"
        and fg: "f = (if id_file g = id_file (files c ! i)
                      then fileOutcome E c i (files c ! i) g else g)"
        by (auto simp: processFile_files)
      show "terminal f"
      proof (cases "id_file g = id_file (files c ! i)")
        case True
        with fg go show ?thesis by (simp add: not_stopsAt_terminal)
      next
        case False
        with fg have [simp]: "f = g" by simp
        from idf True False have "id_file g \<in> id_file ` set (take i (files c))"
          using \<open>i < length (files c)\<close> by (auto simp: take_Suc_conv_app_nth)
        with g tm show ?thesis by simp
      qed
    qed
    from "1.IH"[OF True n ids' this cp'] show ?thesis by (simp add: eq)
  next
    case False
    then have "take i (files c) = files c" by simp
    with tm False show ?thesis by (simp add: fileLoop_stop)
  qed
qed

lemma fileLoop_nth:
  assumes "distinct (map id_file (files c))" "map id_file (files s) = map id_file (files c)"
    "j < length (files c)"
  shows "files (stateOf (fileLoop E c i s)) ! j =
           (if i \<le> j \<and> j < loopEnd E c i
            then fileOutcome E c j (files c ! j) (files s ! j) else files s ! j)"
  using assms
proof (induction E c i s rule: fileLoop.induct)
  case (1 E c i s)
  note dist = "1.prems"(1) and same = "1.prems"(2) and j = "1.prems"(3)
  have len: "length (files s) = length (files c)"
    using same by (metis length_map)
  have ids: "id_file (files s ! k) = id_file (files c ! k)" if "k < length (files c)" for k
    using same that len by (metis nth_map)
  show ?case
  proof (cases "i < length (files c)")
    case True
    let ?r = "processFile E c i (files c ! i) s"
    let ?s = "stateOf ?r"
    have r: "raised ?r \<longleftrightarrow> stopsAt E c i" using same True by (rule processFile_raised_loop)
    have ids': "map id_file (files ?s) = map id_file (files c)"
      using same by (simp add: processFile_ids)
    have eq: "id_file (files c ! j) = id_file (files c ! i) \<longleftrightarrow> j = i"
    proof
      assume h: "id_file (files c ! j) = id_file (files c ! i)"
      have a: "map id_file (files c) ! j = id_file (files c ! j)"
        using j by simp
      have b: "map id_file (files c) ! i = id_file (files c ! i)"
        using True by simp
      have m: "map id_file (files c) ! j = map id_file (files c) ! i"
        by (simp only: a b h)
      have "(map id_file (files c) ! j = map id_file (files c) ! i) = (j = i)"
        by (rule nth_eq_iff_index_eq) (use dist j True in simp_all)
      with m show "j = i" by blast
    next
      assume "j = i"
      then show "id_file (files c ! j) = id_file (files c ! i)" by simp
    qed
    have nth: "files ?s ! j =
        (if j = i then fileOutcome E c i (files c ! i) (files s ! j) else files s ! j)"
      using j len ids[OF j] eq by (simp add: processFile_files)
    show ?thesis
    proof (cases "stopsAt E c i")
      case stop: True
      then have "fileLoop E c i s = ?r" using True r by (simp add: fileLoop_raise)
      moreover have "i \<le> j \<and> j < Suc i \<longleftrightarrow> j = i" by auto
      ultimately show ?thesis using True stop nth by (simp add: loopEnd_stop)
    next
      case go: False
      then have nr: "\<not> raised ?r" using r by simp
      then have n: "?r = Normal ?s" by (simp add: not_raised_iff)
      have e: "fileLoop E c i s = fileLoop E c (Suc i) ?s"
        using True nr by (rule fileLoop_step)
      note IH = "1.IH"[OF True n dist ids' j]
      have le: "Suc i \<le> loopEnd E c (Suc i)"
        using loopEnd_bounds[of "Suc i" c E] True by simp
      have L: "loopEnd E c i = loopEnd E c (Suc i)" using True go by (rule loopEnd_next)
      consider "j < i" | "j = i" | "i < j" by arith
      then show ?thesis
      proof cases
        case 1
        with IH nth show ?thesis by (simp add: e L)
      next
        case 2
        with IH nth le show ?thesis by (simp add: e L)
      next
        case 3
        with IH nth show ?thesis by (simp add: e L)
      qed
    qed
  next
    case False
    with j show ?thesis by (simp add: fileLoop_stop)
  qed
qed

lemma settledOrder_append [simp]: "settledOrder (xs @ ys) = settledOrder xs @ settledOrder ys"
  by (induction xs rule: settledOrder.induct) simp_all

lemma settledEntries_append [simp]:
  "settledEntries bs (xs @ ys) = settledEntries bs xs + settledEntries bs ys"
  by (induction bs xs rule: settledEntries.induct) simp_all

lemma reportsCounts_append:
  "reportsCounts N i nV bs cnt (xs @ ys) \<longleftrightarrow>
     reportsCounts N i nV bs cnt xs \<and> reportsCounts N i nV bs (cnt + settledEntries bs xs) ys"
  by (induction N i nV bs cnt xs rule: reportsCounts.induct) (simp_all add: add.assoc)

lemma settledOrder_callEvents [simp]: "settledOrder (callEvents c i ps b chunk) = []"
  by (induction chunk arbitrary: b) (simp_all add: callEvent_def)

lemma settledEntries_callEvents [simp]: "settledEntries bs (callEvents c i ps b chunk) = 0"
  by (induction chunk arbitrary: b) (simp_all add: callEvent_def)

lemma reportsCounts_callEvents [simp]: "reportsCounts N i nV bs cnt (callEvents c i ps b chunk)"
  by (induction chunk arbitrary: b) (simp_all add: callEvent_def)

lemma settledOrder_settleEvents [simp]:
  "settledOrder (settleEvents c i nV cnt cls) = map call_index cls"
  by (induction cls arbitrary: cnt) simp_all

lemma settledEntries_settleEvents:
  "\<forall>cl\<in>set cls. call_batch cl = bs ! call_index cl \<Longrightarrow>
   settledEntries bs (settleEvents c i nV cnt cls) = length (concat (map call_batch cls))"
  by (induction cls arbitrary: cnt) simp_all

lemma reportsCounts_settleEvents:
  "\<forall>cl\<in>set cls. call_batch cl = bs ! call_index cl \<Longrightarrow>
   reportsCounts (length (files c)) i nV bs cnt (settleEvents c i nV cnt cls)"
  by (induction cls arbitrary: cnt) simp_all

lemma progressOf_settleEvents_order:
  "\<forall>cl\<in>set cls. call_batch cl = bs ! call_index cl \<Longrightarrow>
   progressOf (settleEvents c i nV cnt cls) =
     map (\<lambda>n. cappedProgress (length (files c)) i n nV)
       (runningCounts cnt (map (\<lambda>b. length (bs ! b)) (map call_index cls)))"
  by (induction cls arbitrary: cnt) simp_all

lemma runningCounts_append:
  "runningCounts cnt (xs @ ys) = runningCounts cnt xs @ runningCounts (cnt + sum_list xs) ys"
  by (induction xs arbitrary: cnt) (simp_all add: add.assoc)

lemma callsOf_index_list:
  "map call_index (callsOf E c i ps b chunk) = [b..<b + length chunk]"
proof (induction chunk arbitrary: b)
  case Nil
  then show ?case by simp
next
  case (Cons bt rest)
  have "b < b + length (bt # rest)" by simp
  then have "[b..<b + length (bt # rest)] = b # [Suc b..<b + length (bt # rest)]"
    by (rule upt_conv_Cons)
  with Cons[of "Suc b"] show ?case by simp
qed

lemma window_call_batch:
  assumes "cl \<in> set (callsOf E c i ps k (slice batches k (k + CONCURRENT_LIMIT)))"
  shows "call_batch cl = batches ! call_index cl"
proof -
  let ?chunk = "slice batches k (k + CONCURRENT_LIMIT)"
  from assms obtain p where p: "p < length ?chunk" and cl: "cl = callsOf E c i ps k ?chunk ! p"
    by (metis callsOf_length in_set_conv_nth)
  from p cl show ?thesis by (simp add: callsOf_nth slice_nth)
qed

lemma window_indexes:
  "k < length batches \<Longrightarrow>
   [k..<k + length (slice batches k (k + CONCURRENT_LIMIT))] @
     [k + CONCURRENT_LIMIT..<length batches] = [k..<length batches]"
proof -
  assume k: "k < length batches"
  let ?m = "k + length (slice batches k (k + CONCURRENT_LIMIT))"
  have m: "?m = min (k + CONCURRENT_LIMIT) (length batches)"
    using k by (auto simp: slice_length min_def)
  show ?thesis
  proof (cases "k + CONCURRENT_LIMIT \<le> length batches")
    case True
    with m have "?m = k + CONCURRENT_LIMIT" by simp
    moreover have "[k..<k + CONCURRENT_LIMIT] @ [k + CONCURRENT_LIMIT..<length batches] =
        [k..<length batches]"
      using upt_add_eq_append[of k "k + CONCURRENT_LIMIT" "length batches - (k + CONCURRENT_LIMIT)"]
        True by simp
    ultimately show ?thesis by simp
  next
    case False
    with m have "?m = length batches" by simp
    moreover have "[k + CONCURRENT_LIMIT..<length batches] = []" using False by simp
    ultimately show ?thesis by simp
  qed
qed

lemma loopEvents_settlements:
  "reportsCounts (length (files c)) i nV batches cnt (loopEvents E c i nV ps batches k cnt) \<and>
   mset (settledOrder (loopEvents E c i nV ps batches k cnt)) = mset [k..<length batches] \<and>
   progressOf (loopEvents E c i nV ps batches k cnt) =
     map (\<lambda>n. cappedProgress (length (files c)) i n nV)
       (runningCounts cnt (map (\<lambda>b. length (batches ! b))
          (settledOrder (loopEvents E c i nV ps batches k cnt))))"
proof (induction E c i nV ps batches k cnt rule: loopEvents.induct)
  case (1 E c i nV ps batches k cnt)
  show ?case
  proof (cases "k < length batches")
    case True
    let ?chunk = "slice batches k (k + CONCURRENT_LIMIT)"
    let ?cls = "pickOrder (settleOrder E i k) (callsOf E c i ps k ?chunk)"
    let ?cnt = "cnt + length (concat ?chunk)"
    let ?rest = "loopEvents E c i nV ps batches (k + CONCURRENT_LIMIT) ?cnt"
    note IH = "1.IH"[OF True]
    from IH have IHa: "reportsCounts (length (files c)) i nV batches ?cnt ?rest" by (rule conjunct1)
    from IH have IHb: "mset (settledOrder ?rest) = mset [k + CONCURRENT_LIMIT..<length batches]"
      by (rule conjunct1[OF conjunct2])
    from IH have IHd: "progressOf ?rest =
        map (\<lambda>n. cappedProgress (length (files c)) i n nV)
          (runningCounts ?cnt (map (\<lambda>b. length (batches ! b)) (settledOrder ?rest)))"
      by (rule conjunct2[OF conjunct2])
    have cb: "\<forall>cl\<in>set ?cls. call_batch cl = batches ! call_index cl"
      by (simp add: window_call_batch)
    have ev: "loopEvents E c i nV ps batches k cnt =
        callEvents c i ps k ?chunk @ settleEvents c i nV cnt ?cls @ ?rest"
      using True by (subst loopEvents.simps) simp
    have cc: "length (concat (map call_batch ?cls)) = length (concat ?chunk)"
      by (simp add: pickOrder_concat_length)
    have se: "settledEntries batches (settleEvents c i nV cnt ?cls) = length (concat ?chunk)"
      using cb cc by (simp add: settledEntries_settleEvents)
    have a: "reportsCounts (length (files c)) i nV batches cnt
               (loopEvents E c i nV ps batches k cnt)"
      using IHa cb by (simp add: ev reportsCounts_append reportsCounts_settleEvents se)
    have "mset (map call_index ?cls) = mset (map call_index (callsOf E c i ps k ?chunk))"
      by (simp add: pickOrder_mset)
    then have "mset (map call_index ?cls) = mset [k..<k + length ?chunk]"
      by (simp only: callsOf_index_list)
    then have "mset (map call_index ?cls @ settledOrder ?rest) =
        mset ([k..<k + length ?chunk] @ [k + CONCURRENT_LIMIT..<length batches])"
      using IHb by (simp only: mset_append)
    then have b: "mset (settledOrder (loopEvents E c i nV ps batches k cnt)) =
        mset [k..<length batches]"
      by (simp only: ev settledOrder_append settledOrder_callEvents settledOrder_settleEvents
            append_Nil window_indexes[OF True])
    have sl: "sum_list (map (\<lambda>b. length (batches ! b)) (map call_index ?cls)) =
        length (concat ?chunk)"
    proof -
      have "map (\<lambda>b. length (batches ! b)) (map call_index ?cls) =
          map (\<lambda>cl. length (call_batch cl)) ?cls"
        using cb by simp
      then show ?thesis by (simp only: sum_list_lengths cc)
    qed
    have d: "progressOf (loopEvents E c i nV ps batches k cnt) =
        map (\<lambda>n. cappedProgress (length (files c)) i n nV)
          (runningCounts cnt (map (\<lambda>b. length (batches ! b))
             (settledOrder (loopEvents E c i nV ps batches k cnt))))"
    proof -
      have p1: "progressOf (settleEvents c i nV cnt ?cls) =
          map (\<lambda>n. cappedProgress (length (files c)) i n nV)
            (runningCounts cnt (map (\<lambda>b. length (batches ! b)) (map call_index ?cls)))"
        using cb by (rule progressOf_settleEvents_order)
      have so: "settledOrder (loopEvents E c i nV ps batches k cnt) =
          map call_index ?cls @ settledOrder ?rest"
        by (simp add: ev)
      have po: "progressOf (loopEvents E c i nV ps batches k cnt) =
          progressOf (settleEvents c i nV cnt ?cls) @ progressOf ?rest"
        by (simp add: ev)
      show ?thesis
        unfolding so po p1 IHd by (simp only: map_append runningCounts_append sl)
    qed
    show ?thesis by (intro conjI) (fact a, fact b, fact d)
  next
    case False
    then have "loopEvents E c i nV ps batches k cnt = []" by (subst loopEvents.simps) simp
    with False show ?thesis by simp
  qed
qed

lemma reportsCounts_nth:
  "reportsCounts N i nV bs cnt evs \<Longrightarrow> n < length evs \<Longrightarrow> evs ! n = SetProgress v \<Longrightarrow>
   v = cappedProgress N i (cnt + settledEntries bs (take n evs)) nV"
proof (induction evs arbitrary: cnt n)
  case Nil
  then show ?case by simp
next
  case (Cons ev evs)
  show ?case
  proof (cases n)
    case 0
    with Cons.prems show ?thesis by (cases ev) simp_all
  next
    case (Suc k)
    with Cons.prems have k: "k < length evs" and ek: "evs ! k = SetProgress v" by simp_all
    show ?thesis
    proof (cases ev)
      case (Settled i' b)
      with Cons.prems(1) have "reportsCounts N i nV bs (cnt + length (bs ! b)) evs" by simp
      from Cons.IH[OF this k ek] Settled Suc show ?thesis by (simp add: add.assoc)
    next
      case (SetProgress w)
      with Cons.prems(1) have "reportsCounts N i nV bs cnt evs" by simp
      from Cons.IH[OF this k ek] SetProgress Suc show ?thesis by simp
    next
      case Alert
      with Cons.prems(1) have "reportsCounts N i nV bs cnt evs" by simp
      from Cons.IH[OF this k ek] Alert Suc show ?thesis by simp
    next
      case (TranslateBatch a b bt texts src tgt p)
      with Cons.prems(1) have "reportsCounts N i nV bs cnt evs" by simp
      from Cons.IH[OF this k ek] TranslateBatch Suc show ?thesis by simp
    next
      case (ReconstructSubtitles ps nm)
      with Cons.prems(1) have "reportsCounts N i nV bs cnt evs" by simp
      from Cons.IH[OF this k ek] ReconstructSubtitles Suc show ?thesis by simp
    next
      case UncaughtTypeError
      with Cons.prems(1) have "reportsCounts N i nV bs cnt evs" by simp
      from Cons.IH[OF this k ek] UncaughtTypeError Suc show ?thesis by simp
    qed
  qed
qed

lemma translateFile_unread:
  "readFileAsText E (file_obj fileItem) = Inl e \<Longrightarrow> snd (translateFile E c i fileItem) = []"
  by (simp add: translateFile_def)

lemma translateFile_unparsed:
  "readFileAsText E (file_obj fileItem) = Inr tx \<Longrightarrow> parseSubtitles E tx = Inl e \<Longrightarrow>
   snd (translateFile E c i fileItem) = []"
  by (simp add: translateFile_def)

lemma translateFile_parsed:
  "readFileAsText E (file_obj fileItem) = Inr tx \<Longrightarrow> parseSubtitles E tx = Inr parsed \<Longrightarrow>
   snd (translateFile E c i fileItem) =
     emitted (translateChunks E c i parsed) @
     [ReconstructSubtitles (entries (translateChunks E c i parsed)) (name (file_obj fileItem))]"
  by (simp add: translateFile_def Let_def split: sum.splits)

lemma translateChunks_reports:
  fixes E c i parsed
  defines "valid \<equiv> validSubtitles (removeSDH_step c parsed)"
  defines "batches \<equiv> batchLoop valid 0"
  defines "evs \<equiv> emitted (translateChunks E c i parsed)"
  shows "mset (settledOrder evs) = mset [0..<length batches]"
    and "progressOf evs =
           map (\<lambda>n. cappedProgress (length (files c)) i n (length valid))
             (runningCounts 0 (map (\<lambda>b. length (batches ! b)) (settledOrder evs)))"
    and "\<forall>n<length evs. \<forall>v. evs ! n = SetProgress v \<longrightarrow>
           v = cappedProgress (length (files c)) i (settledEntries batches (take n evs))
                 (length valid)"
proof -
  have ev: "evs = loopEvents E c i (length valid) (removeSDH_step c parsed) batches 0 0"
    unfolding evs_def batches_def valid_def by (rule translateChunks_emitted)
  note S = loopEvents_settlements[of c i "length valid" batches 0 E "removeSDH_step c parsed" 0]
  from S show "mset (settledOrder evs) = mset [0..<length batches]"
    unfolding ev by (rule conjunct1[OF conjunct2])
  from S show "progressOf evs =
           map (\<lambda>n. cappedProgress (length (files c)) i n (length valid))
             (runningCounts 0 (map (\<lambda>b. length (batches ! b)) (settledOrder evs)))"
    unfolding ev by (rule conjunct2[OF conjunct2])
  from S have r: "reportsCounts (length (files c)) i (length valid) batches 0 evs"
    unfolding ev by (rule conjunct1)
  show "\<forall>n<length evs. \<forall>v. evs ! n = SetProgress v \<longrightarrow>
           v = cappedProgress (length (files c)) i (settledEntries batches (take n evs))
                 (length valid)"
  proof (intro allI impI)
    fix n v assume "n < length evs" "evs ! n = SetProgress v"
    with r have "v = cappedProgress (length (files c)) i
        (0 + settledEntries batches (take n evs)) (length valid)"
      by (rule reportsCounts_nth)
    then show "v = cappedProgress (length (files c)) i (settledEntries batches (take n evs))
                 (length valid)" by simp
  qed
qed

lemma handleStartProcessing_run:
  assumes "files s \<noteq> []" "sourceLang s \<noteq> targetLang s"
  shows "handleStartProcessing E s =
     (let s2 = stateOf (fileLoop E s 0 (s\<lparr>step := RESULTS, isProcessing := True, progress := 0,
                       trace := trace s @ [SetProgress 0]\<rparr>))
      in if completes E s 0
         then s2\<lparr>isProcessing := False, progress := 100, trace := trace s2 @ [SetProgress 100]\<rparr>
         else s2\<lparr>trace := trace s2 @ [UncaughtTypeError]\<rparr>)"
proof -
  let ?s1 = "s\<lparr>step := RESULTS, isProcessing := True, progress := 0,
                       trace := trace s @ [SetProgress 0]\<rparr>"
  have "map id_file (files ?s1) = map id_file (files s)" by simp
  from fileLoop_run[OF this, of E 0]
  have r: "raised (fileLoop E s 0 ?s1) \<longleftrightarrow> \<not> completes E s 0" by (rule conjunct1)
  show ?thesis
  proof (cases "fileLoop E s 0 ?s1")
    case (Normal s2)
    with r have "completes E s 0" by simp
    with Normal assms show ?thesis by (simp add: handleStartProcessing_def Let_def)
  next
    case (Raised s2)
    with r have "\<not> completes E s 0" by simp
    with Raised assms show ?thesis by (simp add: handleStartProcessing_def Let_def)
  qed
qed

lemma handleStartProcessing_trace:
  assumes "files s \<noteq> []" "sourceLang s \<noteq> targetLang s"
  shows "trace (handleStartProcessing E s) =
     trace s @ SetProgress 0 #
       concat (map (\<lambda>j. snd (translateFile E s j (files s ! j))) [0..<loopEnd E s 0]) @
       [if completes E s 0 then SetProgress 100 else UncaughtTypeError]"
proof -
  let ?s1 = "s\<lparr>step := RESULTS, isProcessing := True, progress := 0,
                       trace := trace s @ [SetProgress 0]\<rparr>"
  have "map id_file (files ?s1) = map id_file (files s)" by simp
  from fileLoop_run[OF this, of E 0]
  have "trace (stateOf (fileLoop E s 0 ?s1)) =
      trace ?s1 @ concat (map (\<lambda>j. snd (translateFile E s j (files s ! j))) [0..<loopEnd E s 0])"
    by (rule conjunct1[OF conjunct2])
  then show ?thesis by (simp add: handleStartProcessing_run[OF assms] Let_def)
qed

lemma handleStartProcessing_files:
  assumes "files s \<noteq> []" "sourceLang s \<noteq> targetLang s"
  shows "files (handleStartProcessing E s) =
     files (stateOf (fileLoop E s 0 (s\<lparr>step := RESULTS, isProcessing := True, progress := 0,
                       trace := trace s @ [SetProgress 0]\<rparr>)))"
  by (simp add: handleStartProcessing_run[OF assms] Let_def)

lemma handleStartProcessing_isProcessing:
  assumes "files s \<noteq> []" "sourceLang s \<noteq> targetLang s" "completes E s 0"
  shows "\<not> isProcessing (handleStartProcessing E s)"
  using assms(3) by (simp add: handleStartProcessing_run[OF assms(1,2)] Let_def)

lemma handleStartProcessing_terminal:
  assumes "files s \<noteq> []" "sourceLang s \<noteq> targetLang s" "completes E s 0"
  shows "\<forall>f\<in>set (files (handleStartProcessing E s)). terminal f"
proof -
  let ?s1 = "s\<lparr>step := RESULTS, isProcessing := True, progress := 0,
                       trace := trace s @ [SetProgress 0]\<rparr>"
  have ids: "map id_file (files ?s1) = map id_file (files s)" by simp
  have "\<forall>f\<in>set (files ?s1). id_file f \<in> id_file ` set (take 0 (files s)) \<longrightarrow> terminal f"
    by simp
  with ids have t: "\<forall>f\<in>set (files (stateOf (fileLoop E s 0 ?s1))).
      id_file f \<in> id_file ` set (files s) \<longrightarrow> terminal f"
    using assms(3) by (rule fileLoop_terminal)
  from fileLoop_run[OF ids, of E 0]
  have "map id_file (files (stateOf (fileLoop E s 0 ?s1))) = map id_file (files s)"
    by (rule conjunct2[OF conjunct2])
  then have ideq: "id_file ` set (files (stateOf (fileLoop E s 0 ?s1))) = id_file ` set (files s)"
    by (metis list.set_map)
  show ?thesis
    unfolding handleStartProcessing_files[OF assms(1,2)]
  proof
    fix f assume f: "f \<in> set (files (stateOf (fileLoop E s 0 ?s1)))"
    then have "id_file f \<in> id_file ` set (files (stateOf (fileLoop E s 0 ?s1)))" by (rule imageI)
    then have "id_file f \<in> id_file ` set (files s)" by (simp only: ideq)
    with t f show "terminal f" by blast
  qed
qed

lemma handleStartProcessing_nth:
  assumes "files s \<noteq> []" "sourceLang s \<noteq> targetLang s"
    and "distinct (map id_file (files s))" "j < length (files s)"
  shows "files (handleStartProcessing E s) ! j =
     (if j < loopEnd E s 0 then fileOutcome E s j (files s ! j) (files s ! j) else files s ! j)"
proof -
  let ?s1 = "s\<lparr>step := RESULTS, isProcessing := True, progress := 0,
                       trace := trace s @ [SetProgress 0]\<rparr>"
  have ids: "map id_file (files ?s1) = map id_file (files s)" by simp
  from fileLoop_nth[OF assms(3) ids assms(4), of E 0]
  show ?thesis by (simp add: handleStartProcessing_files[OF assms(1,2)])
qed

lemma no_nullish_completes:
  assumes "\<forall>j<length (files c). \<not> stepThrows E c j (files c ! j) Nullish \<and>
             localStorage_setItem E (newHistory E c j (files c ! j)) \<noteq> Some Nullish"
  shows "completes E c 0"
proof -
  have "\<not> stopsAt E c j" if "j < length (files c)" for j
    using assms that stopsAt_throws[of E c j] by blast
  then show ?thesis by (simp add: completes_def list_ex_iff)
qed

section \<open>The guards of the handler\<close>

text \<open>
  Claim C9. With no file uploaded, or with the source language equal to the
  target language, \<open>handleStartProcessing\<close> returns at once: the files, the
  progress, the step, the history and every other part of the state stay as
  they were, and no call is made but, in the second case, the alert.
\<close>

theorem guards_leave_state:
  assumes "files s = [] \<or> sourceLang s = targetLang s"
  shows "handleStartProcessing E s =
           s\<lparr>trace := trace s @ (if files s = [] then [] else [Alert])\<rparr>"
  using assms by (auto simp: handleStartProcessing_def)

theorem guards_leave_state_witness:
  "sourceLang (sampleState\<lparr>targetLang := js ''English''\<rparr>) =
     targetLang (sampleState\<lparr>targetLang := js ''English''\<rparr>) \<and>
   handleStartProcessing sampleEnv (sampleState\<lparr>targetLang := js ''English''\<rparr>) =
     sampleState\<lparr>targetLang := js ''English'', trace := [Alert]\<rparr> \<and>
   handleStartProcessing sampleEnv (sampleState\<lparr>files := []\<rparr>) = sampleState\<lparr>files := []\<rparr>"
  using guards_leave_state [of "sampleState\<lparr>targetLang := js ''English''\<rparr>" sampleEnv]
    guards_leave_state [of "sampleState\<lparr>files := []\<rparr>" sampleEnv]
  by (simp add: sampleState_def)

section \<open>Which entries are translated\<close>

text \<open>The sample run, evaluated.\<close>

lemma sample_batches:
  "batchLoop (validSubtitles (removeSDH_step sampleState sampleParsed)) 0 = [[0, 1]]"
  by code_simp

lemma sample_events:
  "emitted (translateChunks sampleEnv sampleState 0 sampleParsed) =
     [TranslateBatch 0 0 [0, 1] [js ''Hello'', js ''World''] (js ''English'') (js ''Uzbek'') [],
      Settled 0 0, SetProgress (100 / 3)]"
  by code_simp

lemma sample_final_texts:
  "map text_sub (entries (translateChunks sampleEnv sampleState 0 sampleParsed)) =
     [js ''Salom'', js ''World'', [], [], js ''7'', []]"
  by code_simp

lemma sample_calls:
  "callsMade (emitted (translateChunks sampleEnv sampleState 0 sampleParsed)) =
     [(0, [0, 1], [js ''Hello'', js ''World''])]"
  by (simp add: sample_events)

text \<open>
  Claim C2. An entry of the parsed array that is a header, or malformed, or
  whose text is empty or white space only, is in no batch passed to
  \<open>translateBatch\<close> while the file is translated; the texts passed are the
  texts of the entries of the batch, as they are after the SDH step, and none
  of them is blank.
\<close>

theorem excluded_entries_never_translated:
  assumes "j < length parsed"
    and "truthy (isHeader (parsed ! j)) \<or> truthy (isMalformed (parsed ! j)) \<or>
         trim (text_sub (parsed ! j)) = []"
    and "(b, bt, texts) \<in> set (callsMade (emitted (translateChunks E c i parsed)))"
  shows "j \<notin> set bt \<and>
         texts = map (\<lambda>r. text_sub (removeSDH_step c parsed ! r)) bt \<and>
         (\<forall>t\<in>set texts. trim t \<noteq> [])"
proof -
  let ?ps = "removeSDH_step c parsed"
  let ?batches = "batchLoop (validSubtitles ?ps) 0"
  from assms(3) have b: "b < length ?batches" and bt: "bt = ?batches ! b"
    and texts: "texts = map (\<lambda>r. text_sub (?ps ! r)) bt"
    by (auto simp: translateChunks_calls)
  have sub: "set bt \<subseteq> set (validSubtitles ?ps)"
    using b bt by (simp add: batch_subset_valid)
  have "j \<notin> set (validSubtitles ?ps)"
    using removeSDH_step_invalid[OF assms(1,2)] by (simp add: validSubtitles_set)
  with sub have 1: "j \<notin> set bt" by auto
  have 2: "\<forall>t\<in>set texts. trim t \<noteq> []"
    using sub by (auto simp: texts validSubtitles_set isValid_def)
  from 1 texts 2 show ?thesis by simp
qed

theorem excluded_entries_never_translated_witness:
  "2 < length sampleParsed \<and> truthy (isHeader (sampleParsed ! 2)) \<and>
   (0, [0, 1], [js ''Hello'', js ''World'']) \<in>
     set (callsMade (emitted (translateChunks sampleEnv sampleState 0 sampleParsed))) \<and>
   2 \<notin> set [0, 1 :: nat] \<and> trim (js ''Hello'') \<noteq> [] \<and> trim (js ''World'') \<noteq> []"
proof -
  have h1: "2 < length sampleParsed" by (simp add: sampleParsed_def)
  have h2: "truthy (isHeader (sampleParsed ! 2))"
    by (simp add: sampleParsed_def truthy_def)
  have h3: "(0, [0, 1], [js ''Hello'', js ''World'']) \<in>
      set (callsMade (emitted (translateChunks sampleEnv sampleState 0 sampleParsed)))"
    by (simp add: sample_calls)
  from excluded_entries_never_translated[OF h1 disjI1[OF h2] h3]
  have "\<forall>t\<in>set [js ''Hello'', js ''World'']. trim t \<noteq> []" by blast
  then have "trim (js ''Hello'') \<noteq> [] \<and> trim (js ''World'') \<noteq> []" by simp
  with h1 h2 h3 show ?thesis by simp
qed

section \<open>A batch whose call fails\<close>

text \<open>
  Claim C3. When the call of \<open>translateBatch\<close> for a batch is rejected, every
  entry of the batch is, after the file is translated, as it was before the
  call; every batch of the file has its call, in order, and every translatable
  entry is counted as completed; and the steps of the file end as
  \<open>reconstructSubtitles\<close> ends, so the rejection is not thrown further.
\<close>

theorem failed_batch_keeps_text:
  assumes read: "readFileAsText E (file_obj fileItem) = Inr text"
    and parse: "parseSubtitles E text = Inr parsed"
    and ps: "ps = removeSDH_step c parsed"
    and batches: "batches = batchLoop (validSubtitles ps) 0"
    and b: "b < length batches"
    and fails: "translateBatch E i b (map (\<lambda>r. text_sub (ps ! r)) (batches ! b))
                  (sourceLang c) (targetLang c) (prompt c) = Inl e"
    and st: "st = translateChunks E c i parsed"
  shows "(\<forall>r\<in>set (batches ! b). entries st ! r = ps ! r) \<and>
         map fst (callsMade (emitted st)) = [0..<length batches] \<and>
         completedSubtitlesCount st = length (validSubtitles ps) \<and>
         fst (translateFile E c i fileItem) =
           (case reconstructSubtitles E (entries st) (name (file_obj fileItem)) of
              Inl x \<Rightarrow> Inl x | Inr finalText \<Rightarrow> Inr (text, finalText))"
proof -
  have 1: "\<forall>r\<in>set (batches ! b). entries st ! r = ps ! r"
  proof
    fix r assume "r \<in> set (batches ! b)"
    then obtain q where q: "q < length (batches ! b)" and r: "r = batches ! b ! q"
      by (auto simp: in_set_conv_nth)
    have "entries st ! r = settledEntry (answerOf E c i ps b (batches ! b)) q (ps ! r)"
      using translateChunks_effect[of b c parsed q E i] b q
      by (simp add: ps batches st r)
    then show "entries st ! r = ps ! r"
      using fails by (simp add: answerOf_def settledEntry_def)
  qed
  have 2: "map fst (callsMade (emitted st)) = [0..<length batches]"
    by (simp add: st batches ps translateChunks_calls comp_def map_idI del: upt.simps)
  have 3: "completedSubtitlesCount st = length (validSubtitles ps)"
    by (simp add: st ps translateChunks_completed)
  have 4: "fst (translateFile E c i fileItem) =
           (case reconstructSubtitles E (entries st) (name (file_obj fileItem)) of
              Inl x \<Rightarrow> Inl x | Inr finalText \<Rightarrow> Inr (text, finalText))"
    by (simp add: translateFile_def read parse st Let_def split: sum.splits)
  from 1 2 3 4 show ?thesis by simp
qed

theorem failed_batch_keeps_text_witness:
  "readFileAsText sampleEnv (file_obj (sampleItem ''c'')) = Inr (js ''doc'') \<and>
   parseSubtitles sampleEnv (js ''doc'') = Inr sampleParsed \<and>
   batchLoop (validSubtitles (removeSDH_step sampleState sampleParsed)) 0 = [[0, 1]] \<and>
   translateBatch sampleEnv 2 0
     (map (\<lambda>r. text_sub (removeSDH_step sampleState sampleParsed ! r)) [0, 1])
     (sourceLang sampleState) (targetLang sampleState) (prompt sampleState) =
     Inl (Exn (js ''rejected'')) \<and>
   entries (translateChunks sampleEnv sampleState 2 sampleParsed) ! 0 =
     removeSDH_step sampleState sampleParsed ! 0 \<and>
   entries (translateChunks sampleEnv sampleState 2 sampleParsed) ! 1 =
     removeSDH_step sampleState sampleParsed ! 1 \<and>
   map fst (callsMade (emitted (translateChunks sampleEnv sampleState 2 sampleParsed))) = [0] \<and>
   completedSubtitlesCount (translateChunks sampleEnv sampleState 2 sampleParsed) = 2"
proof -
  have h1: "readFileAsText sampleEnv (file_obj (sampleItem ''c'')) = Inr (js ''doc'')"
    by code_simp
  have h2: "parseSubtitles sampleEnv (js ''doc'') = Inr sampleParsed"
    by (simp add: sampleEnv_def)
  have h3: "0 < length (batchLoop (validSubtitles (removeSDH_step sampleState sampleParsed)) 0)"
    by (simp add: sample_batches)
  have h4: "translateBatch sampleEnv 2 0
     (map (\<lambda>r. text_sub (removeSDH_step sampleState sampleParsed ! r))
        (batchLoop (validSubtitles (removeSDH_step sampleState sampleParsed)) 0 ! 0))
     (sourceLang sampleState) (targetLang sampleState) (prompt sampleState) =
     Inl (Exn (js ''rejected''))"
    by (simp add: sampleEnv_def)
  have v: "length (validSubtitles (removeSDH_step sampleState sampleParsed)) = 2"
    using arg_cong[OF batchLoop_concat[of "validSubtitles (removeSDH_step sampleState sampleParsed)" 0], of length]
    by (simp add: sample_batches)
  from failed_batch_keeps_text[OF h1 h2 refl refl h3 h4 refl]
  show ?thesis using h1 h2 h4 v by (simp add: sample_batches)
qed

section \<open>A batch whose call succeeds\<close>

text \<open>
  Claim C5. When the call of \<open>translateBatch\<close> for a batch resolves, the entry
  at position \<open>q\<close> of the batch gets the string at position \<open>q\<close> of the answer,
  whatever the order in which the calls settle; where that string is absent or
  empty the entry keeps its text; nothing else of the entry changes, and its
  text is not empty afterwards.
\<close>

theorem translation_assigned_by_position:
  assumes ps: "ps = removeSDH_step c parsed"
    and batches: "batches = batchLoop (validSubtitles ps) 0"
    and b: "b < length batches" and q: "q < length (batches ! b)"
    and ok: "translateBatch E i b (map (\<lambda>r. text_sub (ps ! r)) (batches ! b))
               (sourceLang c) (targetLang c) (prompt c) = Inr translatedBatch"
  shows "entries (translateChunks E c i parsed) ! (batches ! b ! q) =
           (ps ! (batches ! b ! q))
             \<lparr>text_sub := (if q < length translatedBatch \<and> translatedBatch ! q \<noteq> []
                           then translatedBatch ! q
                           else text_sub (ps ! (batches ! b ! q)))\<rparr> \<and>
         text_sub (entries (translateChunks E c i parsed) ! (batches ! b ! q)) \<noteq> []"
proof -
  let ?r = "batches ! b ! q"
  have "entries (translateChunks E c i parsed) ! ?r =
      settledEntry (answerOf E c i ps b (batches ! b)) q (ps ! ?r)"
    using translateChunks_effect[of b c parsed q E i] b q by (simp add: ps batches)
  then have 1: "entries (translateChunks E c i parsed) ! ?r =
      (ps ! ?r)\<lparr>text_sub := (if q < length translatedBatch \<and> translatedBatch ! q \<noteq> []
                           then translatedBatch ! q else text_sub (ps ! ?r))\<rparr>"
    using ok by (simp add: answerOf_def settledEntry_def orText_def)
  have "?r \<in> set (batches ! b)" using q by simp
  then have "?r \<in> set (validSubtitles ps)"
    using batch_subset_valid[of b "validSubtitles ps"] b by (auto simp: batches)
  then have "trim (text_sub (ps ! ?r)) \<noteq> []"
    by (simp add: validSubtitles_set isValid_def)
  then have "text_sub (ps ! ?r) \<noteq> []" by (auto simp: trim_def)
  with 1 show ?thesis by simp
qed

theorem translation_assigned_by_position_witness:
  "translateBatch sampleEnv 0 0
     (map (\<lambda>r. text_sub (removeSDH_step sampleState sampleParsed ! r)) [0, 1])
     (sourceLang sampleState) (targetLang sampleState) (prompt sampleState) =
     Inr [js ''Salom'', []] \<and>
   text_sub (entries (translateChunks sampleEnv sampleState 0 sampleParsed) ! 0) = js ''Salom'' \<and>
   text_sub (entries (translateChunks sampleEnv sampleState 0 sampleParsed) ! 1) = js ''World''"
proof -
  have h3: "0 < length (batchLoop (validSubtitles (removeSDH_step sampleState sampleParsed)) 0)"
    by (simp add: sample_batches)
  have q0: "0 < length (batchLoop (validSubtitles (removeSDH_step sampleState sampleParsed)) 0 ! 0)"
    and q1: "1 < length (batchLoop (validSubtitles (removeSDH_step sampleState sampleParsed)) 0 ! 0)"
    by (simp_all add: sample_batches)
  have h4: "translateBatch sampleEnv 0 0
     (map (\<lambda>r. text_sub (removeSDH_step sampleState sampleParsed ! r))
        (batchLoop (validSubtitles (removeSDH_step sampleState sampleParsed)) 0 ! 0))
     (sourceLang sampleState) (targetLang sampleState) (prompt sampleState) =
     Inr [js ''Salom'', []]"
    by (simp add: sampleEnv_def)
  have t: "text_sub (removeSDH_step sampleState sampleParsed ! 1) = js ''World''"
    by code_simp
  have ne: "js ''Salom'' \<noteq> []" by (simp add: js_def)
  from translation_assigned_by_position[OF refl refl h3 q0 h4]
    translation_assigned_by_position[OF refl refl h3 q1 h4]
  show ?thesis using h4 t ne by (simp add: sample_batches)
qed

section \<open>Batches and windows\<close>

text \<open>
  Claim C4. The batches are consecutive slices of at most \<open>BATCH_SIZE\<close>
  entries of the translatable entries, which are in the order of the source;
  none is empty. The calls are made in the order of the batches, one for each.
  At every moment at most \<open>CONCURRENT_LIMIT\<close> calls are in flight and they
  belong to one window, so no call of a window is made before every call of
  the window before has settled; at the end no call is in flight.
\<close>

theorem batches_and_windows:
  assumes valid: "valid = validSubtitles (removeSDH_step c parsed)"
    and batches: "batches = batchLoop valid 0"
    and evs: "evs = emitted (translateChunks E c i parsed)"
  shows "concat batches = valid \<and> sorted_wrt (<) valid \<and>
         (\<forall>b<length batches.
            batches ! b = take BATCH_SIZE (drop (b * BATCH_SIZE) valid) \<and> batches ! b \<noteq> []) \<and>
         map (\<lambda>(b, bt, texts). (b, bt)) (callsMade evs) =
           map (\<lambda>b. (b, batches ! b)) [0..<length batches] \<and>
         (\<forall>n\<le>length evs. oneWindow (inFlight (take n evs) {})) \<and>
         inFlight evs {} = {}"
proof -
  have 1: "concat batches = valid" by (simp add: batches batchLoop_concat)
  have 2: "sorted_wrt (<) valid" by (simp add: valid validSubtitles_sorted)
  have 3: "\<forall>b<length batches.
      batches ! b = take BATCH_SIZE (drop (b * BATCH_SIZE) valid) \<and> batches ! b \<noteq> []"
  proof (intro allI impI)
    fix b assume b: "b < length batches"
    then have "batches ! b \<in> set (batchLoop valid 0)" by (simp add: batches)
    then have "batches ! b \<noteq> []" by (auto dest: batchLoop_sizes)
    moreover have "batches ! b = take BATCH_SIZE (drop (b * BATCH_SIZE) valid)"
      using b batchLoop_nth[of b valid 0] by (simp add: batches slice_def)
    ultimately show "batches ! b = take BATCH_SIZE (drop (b * BATCH_SIZE) valid) \<and>
      batches ! b \<noteq> []" by simp
  qed
  have 4: "map (\<lambda>(b, bt, texts). (b, bt)) (callsMade evs) =
      map (\<lambda>b. (b, batches ! b)) [0..<length batches]"
    by (simp add: evs batches valid translateChunks_calls comp_def del: upt.simps)
  have ev: "evs = loopEvents E c i (length valid) (removeSDH_step c parsed) batches 0 0"
    by (simp add: evs translateChunks_emitted valid batches)
  have w: "alwaysOneWindow {} evs \<and> inFlight evs {} = {}"
    unfolding ev by (rule loopEvents_windows) simp
  then have 5: "\<forall>n\<le>length evs. oneWindow (inFlight (take n evs) {})"
    by (simp add: alwaysOneWindow_take)
  from w have 6: "inFlight evs {} = {}" by (rule conjunct2)
  show ?thesis by (intro conjI) (fact 1, fact 2, fact 3, fact 4, fact 5, fact 6)
qed

theorem batches_and_windows_witness:
  "batchLoop (validSubtitles (removeSDH_step sampleState sampleParsed)) 0 = [[0, 1]] \<and>
   map (\<lambda>(b, bt, texts). (b, bt))
     (callsMade (emitted (translateChunks sampleEnv sampleState 0 sampleParsed))) = [(0, [0, 1])] \<and>
   1 \<le> length (emitted (translateChunks sampleEnv sampleState 0 sampleParsed)) \<and>
   inFlight (take 1 (emitted (translateChunks sampleEnv sampleState 0 sampleParsed))) {} = {0} \<and>
   oneWindow {0} \<and>
   inFlight (emitted (translateChunks sampleEnv sampleState 0 sampleParsed)) {} = {}"
proof -
  let ?evs = "emitted (translateChunks sampleEnv sampleState 0 sampleParsed)"
  have n: "1 \<le> length ?evs" by (simp add: sample_events)
  have f: "inFlight (take 1 ?evs) {} = {0}" by (simp add: sample_events)
  note T = batches_and_windows[OF refl refl refl, of sampleState sampleParsed sampleEnv 0]
  from T have "\<forall>n\<le>length ?evs. oneWindow (inFlight (take n ?evs) {})" by blast
  with n have "oneWindow (inFlight (take 1 ?evs) {})" by blast
  then have w: "oneWindow {0}" by (simp only: f)
  from T have e: "inFlight ?evs {} = {}" by blast
  from T have c: "map (\<lambda>(b, bt, texts). (b, bt)) (callsMade ?evs) =
      map (\<lambda>b. (b, batchLoop (validSubtitles (removeSDH_step sampleState sampleParsed)) 0 ! b))
        [0..<length (batchLoop (validSubtitles (removeSDH_step sampleState sampleParsed)) 0)]"
    by blast
  show ?thesis using n f w e c by (simp add: sample_batches)
qed

section \<open>Entries that are only annotations\<close>

text \<open>
  Claim C10, as amended. With SDH stripping enabled, the stripping is applied
  to the parsed entries before the translatable entries are selected: an entry
  whose text is only white space and annotations that the pattern matches (none
  of them running over a line terminator) has an empty text after the
  stripping, is in no batch passed to \<open>translateBatch\<close>, and is passed to
  \<open>reconstructSubtitles\<close> with an empty text.
\<close>

theorem annotations_emptied_before_filter:
  assumes sdh: "removeSDH c"
    and read: "readFileAsText E (file_obj fileItem) = Inr text"
    and parse: "parseSubtitles E text = Inr parsed"
    and j: "j < length parsed"
    and ann: "annotationsOnly (text_sub (parsed ! j))"
  shows "text_sub (removeSDH_step c parsed ! j) = [] \<and>
         (\<forall>(b, bt, texts) \<in> set (callsMade (snd (translateFile E c i fileItem))). j \<notin> set bt) \<and>
         reconstructCalls (snd (translateFile E c i fileItem)) =
           [entries (translateChunks E c i parsed)] \<and>
         text_sub (entries (translateChunks E c i parsed) ! j) = []"
proof -
  let ?ps = "removeSDH_step c parsed"
  let ?st = "translateChunks E c i parsed"
  have 1: "text_sub (?ps ! j) = []"
    using sdh j ann by (simp add: removeSDH_step_def removeSDH_entry_annotationsOnly)
  then have inv: "j \<notin> set (validSubtitles ?ps)"
    by (simp add: validSubtitles_set isValid_def trim_def)
  have evs: "snd (translateFile E c i fileItem) =
      emitted ?st @ [ReconstructSubtitles (entries ?st) (name (file_obj fileItem))]"
    by (simp add: translateFile_def read parse Let_def split: sum.splits)
  have 2: "\<forall>(b, bt, texts) \<in> set (callsMade (snd (translateFile E c i fileItem))). j \<notin> set bt"
  proof -
    have "j \<notin> set bt" if "(b, bt, texts) \<in> set (callsMade (emitted ?st))" for b bt texts
    proof -
      from that have "b < length (batchLoop (validSubtitles ?ps) 0)"
        and "bt = batchLoop (validSubtitles ?ps) 0 ! b"
        by (auto simp: translateChunks_calls)
      then have "set bt \<subseteq> set (validSubtitles ?ps)" by (simp add: batch_subset_valid)
      with inv show ?thesis by auto
    qed
    then show ?thesis by (auto simp: evs)
  qed
  have 3: "reconstructCalls (snd (translateFile E c i fileItem)) = [entries ?st]"
    by (simp add: evs translateChunks_emitted)
  have 4: "text_sub (entries ?st ! j) = []"
    using inv 1 by (simp add: translateChunks_frame)
  show ?thesis by (intro conjI) (fact 1, fact 2, fact 3, fact 4)
qed

theorem annotations_emptied_before_filter_witness:
  "removeSDH sampleState \<and>
   readFileAsText sampleEnv (file_obj (sampleItem ''a'')) = Inr (js ''doc'') \<and>
   parseSubtitles sampleEnv (js ''doc'') = Inr sampleParsed \<and>
   3 < length sampleParsed \<and>
   annotationsOnly (text_sub (sampleParsed ! 3)) \<and>
   text_sub (removeSDH_step sampleState sampleParsed ! 3) = [] \<and>
   callsMade (snd (translateFile sampleEnv sampleState 0 (sampleItem ''a''))) =
     [(0, [0, 1], [js ''Hello'', js ''World''])] \<and>
   3 \<notin> set [0, 1 :: nat] \<and>
   reconstructCalls (snd (translateFile sampleEnv sampleState 0 (sampleItem ''a''))) =
     [entries (translateChunks sampleEnv sampleState 0 sampleParsed)] \<and>
   text_sub (entries (translateChunks sampleEnv sampleState 0 sampleParsed) ! 3) = []"
proof -
  have h1: "removeSDH sampleState" by (simp add: sampleState_def)
  have h2: "readFileAsText sampleEnv (file_obj (sampleItem ''a'')) = Inr (js ''doc'')"
    by code_simp
  have h3: "parseSubtitles sampleEnv (js ''doc'') = Inr sampleParsed"
    by (simp add: sampleEnv_def)
  have h4: "3 < length sampleParsed" by (simp add: sampleParsed_def)
  have t: "text_sub (sampleParsed ! 3) =
      LPAREN # js ''sighs'' @ RPAREN # 0x20 # LBRACKET # js ''x'' @ RBRACKET # []"
    by code_simp
  have b1: "\<forall>x\<in>set (js ''sighs''). x \<noteq> RPAREN \<and> \<not> isLineTerminator x"
    by (simp add: js_def RPAREN_def isLineTerminator_def)
  have b2: "\<forall>x\<in>set (js ''x''). x \<noteq> RBRACKET \<and> \<not> isLineTerminator x"
    by (simp add: js_def RBRACKET_def isLineTerminator_def)
  have sp: "isWhiteSpace 0x20" by (simp add: isWhiteSpace_def)
  have h5: "annotationsOnly (text_sub (sampleParsed ! 3))"
    unfolding t
    by (intro annotationsOnly.paren annotationsOnly.space annotationsOnly.bracket
          annotationsOnly.nothing b1 b2 sp)
  have c: "callsMade (snd (translateFile sampleEnv sampleState 0 (sampleItem ''a''))) =
     [(0, [0, 1], [js ''Hello'', js ''World''])]"
    by (simp add: translateFile_def h2 h3 Let_def sample_events split: sum.splits)
  from annotations_emptied_before_filter[OF h1 h2 h3 h4 h5, of 0]
  show ?thesis using h1 h2 h3 h4 h5 c by simp
qed

text \<open>
  Claim C10 as it was stated does not hold for an annotation that runs over a
  line break: the dot of the pattern matches no line terminator, so the text
  stays, is valid, and is passed to \<open>translateBatch\<close>.
\<close>

theorem multiline_annotation_is_translated:
  "removeSDH sampleState \<and>
   text_sub (removeSDH_step sampleState [multilineCue] ! 0) = text_sub multilineCue \<and>
   text_sub multilineCue \<noteq> [] \<and>
   callsMade (emitted (translateChunks sampleEnv sampleState 0 [multilineCue])) =
     [(0, [0], [text_sub multilineCue])]"
  by code_simp

section \<open>The SDH step on headers and malformed entries\<close>

text \<open>
  Claim C7 says the stripping leaves the text of headers and malformed
  entries as it is. The loop of step 3 runs over every parsed entry and tests
  only that the text is not empty: in the sample run the header loses its
  whole text and the malformed entry its parenthesis.
\<close>

theorem sdh_step_changes_header_and_malformed:
  "removeSDH sampleState \<and>
   isHeader (sampleParsed ! 2) = Some True \<and>
   text_sub (sampleParsed ! 2) = js ''[Script Info]'' \<and>
   text_sub (entries (translateChunks sampleEnv sampleState 0 sampleParsed) ! 2) = [] \<and>
   isMalformed (sampleParsed ! 4) = Some True \<and>
   text_sub (sampleParsed ! 4) = js ''7 (oops)'' \<and>
   text_sub (entries (translateChunks sampleEnv sampleState 0 sampleParsed) ! 4) = js ''7''"
proof -
  have a: "removeSDH sampleState" by (simp add: sampleState_def)
  have b: "isHeader (sampleParsed ! 2) = Some True" "text_sub (sampleParsed ! 2) = js ''[Script Info]''"
    "isMalformed (sampleParsed ! 4) = Some True" "text_sub (sampleParsed ! 4) = js ''7 (oops)''"
    by (simp_all add: sampleParsed_def cueOf_def)
  have l: "length (entries (translateChunks sampleEnv sampleState 0 sampleParsed)) = 6"
    by (simp add: translateChunks_length sampleParsed_def)
  have c: "text_sub (entries (translateChunks sampleEnv sampleState 0 sampleParsed) ! 2) = []"
    "text_sub (entries (translateChunks sampleEnv sampleState 0 sampleParsed) ! 4) = js ''7''"
    using arg_cong[OF sample_final_texts, of "\<lambda>xs. xs ! 2"]
      arg_cong[OF sample_final_texts, of "\<lambda>xs. xs ! 4"] l
    by simp_all
  from a b c show ?thesis by simp
qed

section \<open>Progress\<close>

lemma sample_progress:
  "progressOf (trace (handleStartProcessing sampleEnv sampleState)) = [0, 100 / 3, 99, 100]"
  by code_simp

lemma sample_statuses:
  "map status (files (handleStartProcessing sampleEnv sampleState)) = [Done, Error, Done]"
  by code_simp

lemma sample_completes: "completes sampleEnv sampleState 0"
  by code_simp

lemma sample_valid: "length (validSubtitles (removeSDH_step sampleState sampleParsed)) = 2"
  by code_simp



section \<open>A file that fails\<close>

lemma failing_statuses:
  "map status (files (handleStartProcessing failingEnv failingState)) =
     [Done, Error, Error, Error, Done]"
  by code_simp

lemma failing_never_nullish: "\<not> stepThrows failingEnv failingState j f Nullish"
proof
  assume "stepThrows failingEnv failingState j f Nullish"
  then show False
    by cases (simp_all add: failingEnv_def Exn_def split: if_splits)
qed

lemma failing_store: "localStorage_setItem failingEnv h \<noteq> Some Nullish"
  by (simp add: failingEnv_def sampleEnv_def)




end
